theory Spec2Isabelle
  imports Complex_Main "HOL-Library.List_Lexorder" "HOL-Library.Char_ord"
begin

section \<open>Data model of the graph store (lib/graph-store.js, SCHEMA\_SQL)\<close>

text \<open>
  One \<open>GraphStore\<close> wraps one SQLite file. Each table is a list of rows in rowid order.
  SQL \<open>REAL\<close> columns are modelled as real numbers, \<open>datetime('now')\<close> as the clock
  reading in seconds, passed to every operation that reads the clock, and the JSON text of
  the \<open>aliases\<close> and \<open>predicates\<close> columns as the list it encodes. Strings are ASCII text.
\<close>

record clock =
  now :: int
  today :: string

record triple =
  t_id :: nat
  subject :: string
  predicate :: string
  object :: string
  confidence :: real
  source_exchange_id :: "string option"
  source_date :: string
  created_at :: int
  updated_at :: int
  agent_id :: string
  pending_resolution :: bool

record entity =
  e_id :: string
  canonical_name :: string
  entity_type :: string
  first_seen :: int
  last_seen :: "int option"
  mention_count :: int
  aliases :: "string list"
  e_agent_id :: string

record cooccurrence =
  entity_a :: string
  entity_b :: string
  c_count :: int
  c_last_seen :: int

datatype pattern_type = Static | Discovered

record meta_pattern =
  p_id :: nat
  predicates :: "string list"
  p_type :: pattern_type
  weight :: real
  yield_score :: real
  overlap_ratio :: real
  last_validated :: "int option"
  active :: bool
  p_agent_id :: string
  p_created_at :: int

text \<open>
  \<open>triple_seq\<close> and \<open>pattern_seq\<close> are the \<open>sqlite_sequence\<close> entries of the two
  \<open>AUTOINCREMENT\<close> keys: the largest rowid ever handed out.
\<close>

record store =
  triples :: "triple list"
  triple_seq :: nat
  entities :: "entity list"
  cooccurrences :: "cooccurrence list"
  meta_patterns :: "meta_pattern list"
  pattern_seq :: nat

definition empty_store :: store where
  "empty_store = \<lparr>triples = [], triple_seq = 0, entities = [], cooccurrences = [],
     meta_patterns = [], pattern_seq = 0\<rparr>"

subsection \<open>JavaScript defaults\<close>

text \<open>\<open>agentId || 'main'\<close>: undefined and the empty string are falsy.\<close>

definition or_main :: "string option \<Rightarrow> string" where
  "or_main a = (case a of None \<Rightarrow> ''main'' | Some s \<Rightarrow> if s = [] then ''main'' else s)"

text \<open>\<open>confidence || 1.0\<close>: undefined and 0 are falsy.\<close>

definition or_one :: "real option \<Rightarrow> real" where
  "or_one c = (case c of None \<Rightarrow> 1 | Some x \<Rightarrow> if x = 0 then 1 else x)"

text \<open>\<open>s || d\<close> on an optional string.\<close>

definition or_str :: "string option \<Rightarrow> string \<Rightarrow> string" where
  "or_str a d = (case a of None \<Rightarrow> d | Some s \<Rightarrow> if s = [] then d else s)"

text \<open>\<open>s || null\<close>.\<close>

definition or_null :: "string option \<Rightarrow> string option" where
  "or_null a = (case a of None \<Rightarrow> None | Some s \<Rightarrow> if s = [] then None else Some s)"

subsection \<open>normalizeEntityId\<close>

definition is_space :: "char \<Rightarrow> bool" where
  "is_space c = (c = CHR '' '' \<or> c = CHR 0x09 \<or> c = CHR 0x0A \<or> c = CHR 0x0B
     \<or> c = CHR 0x0C \<or> c = CHR 0x0D)"

definition ascii_lower :: "char \<Rightarrow> char" where
  "ascii_lower c =
     (case map_of (zip ''ABCDEFGHIJKLMNOPQRSTUVWXYZ'' ''abcdefghijklmnopqrstuvwxyz'') c of
        Some l \<Rightarrow> l | None \<Rightarrow> c)"

definition toLowerCase :: "string \<Rightarrow> string" where
  "toLowerCase s = map ascii_lower s"

definition trim :: "string \<Rightarrow> string" where
  "trim s = rev (dropWhile is_space (rev (dropWhile is_space s)))"

text \<open>\<open>replace(/\s+/g, '_')\<close>: every maximal run of whitespace becomes one underscore.\<close>

function replace_ws :: "string \<Rightarrow> string" where
  "replace_ws [] = []"
| "replace_ws (c # cs) =
     (if is_space c then CHR ''_'' # replace_ws (dropWhile is_space cs)
      else c # replace_ws cs)"
  by pat_completeness auto
termination
  by (relation "measure length") (auto simp: length_dropWhile_le le_imp_less_Suc)

definition normalizeEntityId :: "string \<Rightarrow> string" where
  "normalizeEntityId name = replace_ws (trim (toLowerCase name))"

subsection \<open>upsertEntity\<close>

text \<open>
  \<open>INSERT ... ON CONFLICT(id) DO UPDATE SET last_seen = datetime('now'),
  mention_count = mention_count + 1\<close>. The primary key is \<open>id\<close> alone.
\<close>

definition upsertEntity_stmt :: "clock \<Rightarrow> string \<Rightarrow> string \<Rightarrow> string \<Rightarrow> string \<Rightarrow> store \<Rightarrow> store" where
  "upsertEntity_stmt clk i name ty aid st =
     (if \<exists>e \<in> set (entities st). e_id e = i
      then st\<lparr>entities := map (\<lambda>e. if e_id e = i
                  then e\<lparr>last_seen := Some (now clk), mention_count := mention_count e + 1\<rparr>
                  else e) (entities st)\<rparr>
      else st\<lparr>entities := entities st @
                [\<lparr>e_id = i, canonical_name = name, entity_type = ty, first_seen = now clk,
                  last_seen = Some (now clk), mention_count = 1, aliases = [],
                  e_agent_id = aid\<rparr>]\<rparr>)"

definition upsertEntity :: "clock \<Rightarrow> string \<Rightarrow> string option \<Rightarrow> string option \<Rightarrow> store \<Rightarrow> string \<times> store" where
  "upsertEntity clk name ty agentId st =
     (let i = normalizeEntityId name
      in (i, upsertEntity_stmt clk i name (or_str ty ''CONCEPT'') (or_main agentId) st))"

definition getEntity :: "store \<Rightarrow> string \<Rightarrow> entity option" where
  "getEntity st i = find (\<lambda>e. e_id e = i) (entities st)"

subsection \<open>addTriple\<close>

record triple_args =
  a_subject :: string
  a_predicate :: string
  a_object :: string
  a_confidence :: "real option"
  a_sourceExchangeId :: "string option"
  a_sourceDate :: "string option"
  a_agentId :: "string option"
  a_pendingResolution :: bool

text \<open>\<open>\_findTriple\<close>: the first matching row, \<open>LIMIT 1\<close>.\<close>

definition findTriple :: "store \<Rightarrow> string \<Rightarrow> string \<Rightarrow> string \<Rightarrow> string \<Rightarrow> triple option" where
  "findTriple st s p ob aid =
     find (\<lambda>t. subject t = s \<and> predicate t = p \<and> object t = ob \<and> agent_id t = aid) (triples st)"

text \<open>\<open>\_updateTripleConfidence\<close>: \<open>confidence = MAX(confidence, ?)\<close> on the row with this id.\<close>

definition updateTripleConfidence :: "clock \<Rightarrow> real \<Rightarrow> nat \<Rightarrow> store \<Rightarrow> store" where
  "updateTripleConfidence clk c i st =
     st\<lparr>triples := map (\<lambda>t. if t_id t = i
            then t\<lparr>confidence := max (confidence t) c, updated_at := now clk\<rparr> else t)
          (triples st)\<rparr>"

text \<open>\<open>\_insertTriple\<close>: the new rowid is one more than the largest ever used.\<close>

definition insertTriple :: "clock \<Rightarrow> string \<Rightarrow> string \<Rightarrow> string \<Rightarrow> real \<Rightarrow> string option \<Rightarrow> string
     \<Rightarrow> string \<Rightarrow> bool \<Rightarrow> store \<Rightarrow> nat \<times> store" where
  "insertTriple clk s p ob c ex d aid pend st =
     (let i = Suc (triple_seq st)
      in (i, st\<lparr>triples := triples st @
                 [\<lparr>t_id = i, subject = s, predicate = p, object = ob, confidence = c,
                   source_exchange_id = ex, source_date = d, created_at = now clk,
                   updated_at = now clk, agent_id = aid, pending_resolution = pend\<rparr>],
               triple_seq := i\<rparr>))"

definition addTriple :: "clock \<Rightarrow> triple_args \<Rightarrow> store \<Rightarrow> nat \<times> store" where
  "addTriple clk a st =
     (let subjectId = normalizeEntityId (a_subject a);
          objectId = normalizeEntityId (a_object a);
          aid = or_main (a_agentId a)
      in case findTriple st subjectId (a_predicate a) objectId aid of
           Some existing \<Rightarrow>
             (t_id existing, updateTripleConfidence clk (or_one (a_confidence a)) (t_id existing) st)
         | None \<Rightarrow>
             insertTriple clk subjectId (a_predicate a) objectId (or_one (a_confidence a))
               (or_null (a_sourceExchangeId a)) (or_str (a_sourceDate a) (today clk)) aid
               (a_pendingResolution a) st)"

subsection \<open>writeExchange\<close>

text \<open>
  The batch arrives from the extractor as JavaScript objects, so a field can be undefined:
  \<open>normalizeEntityId(undefined)\<close> raises a TypeError and the driver refuses to bind
  undefined. The storage layer itself may raise at any statement (disk full, busy, I/O):
  \<open>faults k\<close> says whether it does at the \<open>k\<close>-th step of the batch, counting entities,
  then triples, then co-occurrence pairs.
\<close>

datatype error = TypeError | SqliteError

record entity_item =
  i_name :: "string option"
  i_type :: "string option"

record triple_item =
  i_subject :: "string option"
  i_predicate :: "string option"
  i_object :: "string option"
  i_confidence :: "real option"

record exchange_args =
  x_entities :: "entity_item list"
  x_triples :: "triple_item list"
  x_cooccurrences :: "(string option \<times> string option) list"
  x_agentId :: "string option"
  x_sourceExchangeId :: "string option"
  x_sourceDate :: "string option"

text \<open>\<open>\_upsertCooccurrence\<close>: the primary key is the pair; there is no agent column.\<close>

definition upsertCooccurrence :: "clock \<Rightarrow> string \<Rightarrow> string \<Rightarrow> store \<Rightarrow> store" where
  "upsertCooccurrence clk a b st =
     (if \<exists>c \<in> set (cooccurrences st). entity_a c = a \<and> entity_b c = b
      then st\<lparr>cooccurrences := map (\<lambda>c. if entity_a c = a \<and> entity_b c = b
                  then c\<lparr>c_count := c_count c + 1, c_last_seen := now clk\<rparr> else c)
                (cooccurrences st)\<rparr>
      else st\<lparr>cooccurrences := cooccurrences st @
                [\<lparr>entity_a = a, entity_b = b, c_count = 1, c_last_seen = now clk\<rparr>]\<rparr>)"

text \<open>\<open>[aId, bId].sort()\<close>: the two ids in ascending string order.\<close>

definition sort2 :: "string \<Rightarrow> string \<Rightarrow> string \<times> string" where
  "sort2 a b = (if b < a then (b, a) else (a, b))"

definition bumpCooccurrence :: "clock \<Rightarrow> string \<Rightarrow> string \<Rightarrow> store \<Rightarrow> store" where
  "bumpCooccurrence clk a b st =
     (let sorted = sort2 (normalizeEntityId a) (normalizeEntityId b)
      in upsertCooccurrence clk (fst sorted) (snd sorted) st)"

definition exchange_triple :: "string \<Rightarrow> string option \<Rightarrow> string \<Rightarrow> string \<Rightarrow> string \<Rightarrow> string
     \<Rightarrow> real option \<Rightarrow> triple_args" where
  "exchange_triple aid ex date s p ob c =
     \<lparr>a_subject = s, a_predicate = p, a_object = ob, a_confidence = c,
      a_sourceExchangeId = ex, a_sourceDate = Some date, a_agentId = Some aid,
      a_pendingResolution = False\<rparr>"

fun register_entities :: "clock \<Rightarrow> (nat \<Rightarrow> bool) \<Rightarrow> string \<Rightarrow> nat \<Rightarrow> entity_item list \<Rightarrow> store
     \<Rightarrow> error + store" where
  "register_entities clk faults aid k [] st = Inr st"
| "register_entities clk faults aid k (e # es) st =
     (case i_name e of
        None \<Rightarrow> Inl TypeError
      | Some name \<Rightarrow>
          if faults k then Inl SqliteError
          else register_entities clk faults aid (Suc k) es
                 (snd (upsertEntity clk name (i_type e) (Some aid) st)))"

fun write_triples :: "clock \<Rightarrow> (nat \<Rightarrow> bool) \<Rightarrow> string \<Rightarrow> string option \<Rightarrow> string \<Rightarrow> nat
     \<Rightarrow> triple_item list \<Rightarrow> nat list \<Rightarrow> store \<Rightarrow> error + (nat list \<times> store)" where
  "write_triples clk faults aid ex date k [] tripleIds st = Inr (tripleIds, st)"
| "write_triples clk faults aid ex date k (t # ts) tripleIds st =
     (case (i_subject t, i_predicate t, i_object t) of
        (Some s, Some p, Some ob) \<Rightarrow>
          if faults k then Inl SqliteError
          else (let (i, st') = addTriple clk (exchange_triple aid ex date s p ob (i_confidence t)) st
                in write_triples clk faults aid ex date (Suc k) ts (tripleIds @ [i]) st')
      | _ \<Rightarrow> Inl TypeError)"

fun update_cooccurrences :: "clock \<Rightarrow> (nat \<Rightarrow> bool) \<Rightarrow> nat \<Rightarrow> (string option \<times> string option) list
     \<Rightarrow> store \<Rightarrow> error + store" where
  "update_cooccurrences clk faults k [] st = Inr st"
| "update_cooccurrences clk faults k (c # cs) st =
     (case c of
        (Some a, Some b) \<Rightarrow>
          if faults k then Inl SqliteError
          else update_cooccurrences clk faults (Suc k) cs (bumpCooccurrence clk a b st)
      | _ \<Rightarrow> Inl TypeError)"

text \<open>The function handed to \<open>db.transaction\<close>.\<close>

definition writeExchange_body :: "clock \<Rightarrow> (nat \<Rightarrow> bool) \<Rightarrow> exchange_args \<Rightarrow> store
     \<Rightarrow> error + (nat list \<times> store)" where
  "writeExchange_body clk faults x st =
     (let aid = or_main (x_agentId x);
          date = or_str (x_sourceDate x) (today clk);
          ne = length (x_entities x);
          nt = length (x_triples x)
      in case register_entities clk faults aid 0 (x_entities x) st of
           Inl e \<Rightarrow> Inl e
         | Inr st1 \<Rightarrow>
            (case write_triples clk faults aid (x_sourceExchangeId x) date ne (x_triples x) [] st1 of
               Inl e \<Rightarrow> Inl e
             | Inr (tripleIds, st2) \<Rightarrow>
                (case update_cooccurrences clk faults (ne + nt) (x_cooccurrences x) st2 of
                   Inl e \<Rightarrow> Inl e
                 | Inr st3 \<Rightarrow> Inr (tripleIds, st3))))"

text \<open>
  \<open>db.transaction(fn)\<close> of better-sqlite3: begin, run \<open>fn\<close>, commit; when \<open>fn\<close> throws,
  roll back to the state at begin and rethrow.
\<close>

definition transaction :: "(store \<Rightarrow> error + ('a \<times> store)) \<Rightarrow> store \<Rightarrow> (error + 'a) \<times> store" where
  "transaction fn st = (case fn st of Inl e \<Rightarrow> (Inl e, st) | Inr (v, st') \<Rightarrow> (Inr v, st'))"

definition writeExchange :: "clock \<Rightarrow> (nat \<Rightarrow> bool) \<Rightarrow> exchange_args \<Rightarrow> store
     \<Rightarrow> (error + nat list) \<times> store" where
  "writeExchange clk faults x st = transaction (writeExchange_body clk faults x) st"

subsection \<open>Reads: getTriplesFor, getCooccurrences, getStats\<close>

text \<open>
  \<open>ORDER BY col DESC LIMIT n\<close> is a stable sort on the negated column followed by
  \<open>take\<close>; SQL leaves the order of ties open, the model keeps them in rowid order.
\<close>

definition or_limit :: "nat option \<Rightarrow> nat \<Rightarrow> nat" where
  "or_limit l d = (case l of None \<Rightarrow> d | Some n \<Rightarrow> if n = 0 then d else n)"

definition getTriplesForSubject :: "store \<Rightarrow> string \<Rightarrow> string \<Rightarrow> nat \<Rightarrow> triple list" where
  "getTriplesForSubject st i aid lmt =
     take lmt (sort_key (\<lambda>t. - updated_at t)
       (filter (\<lambda>t. subject t = i \<and> agent_id t = aid) (triples st)))"

definition getTriplesForObject :: "store \<Rightarrow> string \<Rightarrow> string \<Rightarrow> nat \<Rightarrow> triple list" where
  "getTriplesForObject st i aid lmt =
     take lmt (sort_key (\<lambda>t. - updated_at t)
       (filter (\<lambda>t. object t = i \<and> agent_id t = aid) (triples st)))"

text \<open>The \<open>seen\<close> set of getTriplesFor: keep the first row of each id.\<close>

fun dedup_by_id :: "nat list \<Rightarrow> triple list \<Rightarrow> triple list" where
  "dedup_by_id seen [] = []"
| "dedup_by_id seen (t # ts) =
     (if t_id t \<in> set seen then dedup_by_id seen ts
      else t # dedup_by_id (t_id t # seen) ts)"

definition getTriplesFor :: "store \<Rightarrow> string \<Rightarrow> string option \<Rightarrow> nat option \<Rightarrow> triple list" where
  "getTriplesFor st entityName agentId limit =
     (let i = normalizeEntityId entityName;
          aid = or_main agentId;
          lmt = or_limit limit 50;
          asSubject = getTriplesForSubject st i aid lmt;
          asObject = getTriplesForObject st i aid lmt
      in dedup_by_id [] (asSubject @ asObject))"

definition getCooccurrences_stmt :: "store \<Rightarrow> string \<Rightarrow> string \<Rightarrow> nat \<Rightarrow> cooccurrence list" where
  "getCooccurrences_stmt st a b lmt =
     take lmt (sort_key (\<lambda>c. - c_count c)
       (filter (\<lambda>c. entity_a c = a \<or> entity_b c = b) (cooccurrences st)))"

definition getCooccurrences :: "store \<Rightarrow> string \<Rightarrow> nat option \<Rightarrow> cooccurrence list" where
  "getCooccurrences st entityName limit =
     (let i = normalizeEntityId entityName in getCooccurrences_stmt st i i (or_limit limit 20))"

text \<open>\<open>ORDER BY last\_seen DESC\<close>: NULL sorts last.\<close>

definition recentEntities :: "store \<Rightarrow> string \<Rightarrow> nat \<Rightarrow> entity list" where
  "recentEntities st aid lmt =
     (let es = filter (\<lambda>e. e_agent_id e = aid) (entities st)
      in take lmt (sort_key (\<lambda>e. - the (last_seen e)) (filter (\<lambda>e. last_seen e \<noteq> None) es)
                   @ filter (\<lambda>e. last_seen e = None) es))"






subsection \<open>decayStaleTriples\<close>

text \<open>\<open>julianday('now') - julianday(updated\_at)\<close>: the age of a row in days.\<close>

definition age_days :: "clock \<Rightarrow> int \<Rightarrow> real" where
  "age_days clk t = real_of_int (now clk - t) / 86400"

definition decay_selected :: "clock \<Rightarrow> string \<Rightarrow> real \<Rightarrow> triple \<Rightarrow> bool" where
  "decay_selected clk aid halfLifeDays t \<longleftrightarrow>
     agent_id t = aid \<and> confidence t > 0.1 \<and> age_days clk (updated_at t) > halfLifeDays"

definition decayStaleTriples :: "clock \<Rightarrow> string option \<Rightarrow> real option \<Rightarrow> store \<Rightarrow> nat \<times> store" where
  "decayStaleTriples clk agentId halfLifeDays st =
     (let aid = or_main agentId;
          hl = (case halfLifeDays of None \<Rightarrow> 90 | Some d \<Rightarrow> d)
      in (length (filter (decay_selected clk aid hl) (triples st)),
          st\<lparr>triples := map (\<lambda>t. if decay_selected clk aid hl t
                  then t\<lparr>confidence := confidence t * 0.5, updated_at := updated_at t\<rparr>
                  else t) (triples st)\<rparr>))"

subsection \<open>Meta-path pattern rows\<close>

definition getActivePatterns :: "store \<Rightarrow> string option \<Rightarrow> meta_pattern list" where
  "getActivePatterns st agentId =
     sort_key (\<lambda>p. - weight p)
       (filter (\<lambda>p. p_agent_id p = or_main agentId \<and> active p) (meta_patterns st))"

definition findPattern :: "store \<Rightarrow> string list \<Rightarrow> string \<Rightarrow> meta_pattern option" where
  "findPattern st key aid =
     find (\<lambda>p. predicates p = key \<and> p_agent_id p = aid) (meta_patterns st)"

text \<open>
  \<open>\_upsertPattern\<close>: the insert never names an id, so \<open>ON CONFLICT(id)\<close> never fires and the
  statement always inserts a fresh row.
\<close>

definition upsertPattern :: "clock \<Rightarrow> string list \<Rightarrow> pattern_type \<Rightarrow> real \<Rightarrow> real \<Rightarrow> real
     \<Rightarrow> string \<Rightarrow> store \<Rightarrow> nat \<times> store" where
  "upsertPattern clk key ty w y ov aid st =
     (let i = Suc (pattern_seq st)
      in (i, st\<lparr>meta_patterns := meta_patterns st @
                 [\<lparr>p_id = i, predicates = key, p_type = ty, weight = w, yield_score = y,
                   overlap_ratio = ov, last_validated = Some (now clk), active = True,
                   p_agent_id = aid, p_created_at = now clk\<rparr>],
               pattern_seq := i\<rparr>))"

record static_pattern =
  sp_predicates :: "string list"
  sp_weight :: "real option"

fun seedStaticPatterns_loop :: "clock \<Rightarrow> string \<Rightarrow> static_pattern list \<Rightarrow> nat \<Rightarrow> store \<Rightarrow> nat \<times> store" where
  "seedStaticPatterns_loop clk aid [] seeded st = (seeded, st)"
| "seedStaticPatterns_loop clk aid (p # ps) seeded st =
     (case findPattern st (sp_predicates p) aid of
        Some existing \<Rightarrow> seedStaticPatterns_loop clk aid ps seeded st
      | None \<Rightarrow>
          seedStaticPatterns_loop clk aid ps (Suc seeded)
            (snd (upsertPattern clk (sp_predicates p) Static (or_one (sp_weight p)) 0 1 aid st)))"

definition seedStaticPatterns :: "clock \<Rightarrow> string option \<Rightarrow> static_pattern list \<Rightarrow> store \<Rightarrow> nat \<times> store" where
  "seedStaticPatterns clk agentId patterns st =
     seedStaticPatterns_loop clk (or_main agentId) patterns 0 st"

definition savePattern :: "clock \<Rightarrow> string option \<Rightarrow> string list \<Rightarrow> real \<Rightarrow> real \<Rightarrow> real \<Rightarrow> store
     \<Rightarrow> nat \<times> store" where
  "savePattern clk agentId preds w y ov st =
     (let aid = or_main agentId
      in case findPattern st preds aid of
           Some existing \<Rightarrow>
             (p_id existing,
              st\<lparr>meta_patterns := map (\<lambda>p. if p_id p = p_id existing
                    then p\<lparr>weight := w, yield_score := y, overlap_ratio := ov,
                           last_validated := Some (now clk), active := True\<rparr>
                    else p) (meta_patterns st)\<rparr>)
         | None \<Rightarrow> upsertPattern clk preds Discovered w y ov aid st)"

definition deactivatePattern :: "nat \<Rightarrow> store \<Rightarrow> store" where
  "deactivatePattern i st =
     st\<lparr>meta_patterns := map (\<lambda>p. if p_id p = i then p\<lparr>active := False\<rparr> else p)
          (meta_patterns st)\<rparr>"

text \<open>Keep the first occurrence of each element, as a JavaScript Set and \<open>DISTINCT\<close> do.\<close>

definition uniq :: "'a list \<Rightarrow> 'a list" where
  "uniq xs = rev (remdups (rev xs))"

record predicate_stat =
  ps_predicate :: string
  cnt :: nat
  unique_subjects :: nat
  unique_objects :: nat
  avg_confidence :: real

definition getPredicateStats :: "store \<Rightarrow> string option \<Rightarrow> predicate_stat list" where
  "getPredicateStats st agentId =
     (let rows = filter (\<lambda>t. agent_id t = or_main agentId) (triples st)
      in sort_key (\<lambda>s. - int (cnt s))
           (map (\<lambda>p. let g = filter (\<lambda>t. predicate t = p) rows
                     in \<lparr>ps_predicate = p, cnt = length g,
                         unique_subjects = length (uniq (map subject g)),
                         unique_objects = length (uniq (map object g)),
                         avg_confidence = sum_list (map confidence g) / real (length g)\<rparr>)
                (uniq (map predicate rows))))"

section \<open>Graph searcher (GraphSearcher)\<close>

record searcher =
  maxResults :: nat
  minSharedEntities :: nat
  cooccurrenceBoost :: real
  maxHops :: nat
  hopDecay :: real
  minTraversalConfidence :: real
  metaPathWeight :: real

record retrieval_config =
  cfg_maxResults :: "nat option"
  cfg_minSharedEntities :: "nat option"
  cfg_cooccurrenceBoost :: "real option"
  cfg_maxHops :: "nat option"
  cfg_hopDecay :: "real option"
  cfg_minTraversalConfidence :: "real option"
  cfg_metaPathWeight :: "real option"

text \<open>\<open>x || d\<close> on an optional number.\<close>

definition or_real :: "real option \<Rightarrow> real \<Rightarrow> real" where
  "or_real c d = (case c of None \<Rightarrow> d | Some x \<Rightarrow> if x = 0 then d else x)"

definition num_or :: "real \<Rightarrow> real \<Rightarrow> real" where
  "num_or x d = (if x = 0 then d else x)"

definition new_searcher :: "retrieval_config \<Rightarrow> searcher" where
  "new_searcher config =
     \<lparr>maxResults = or_limit (cfg_maxResults config) 20,
      minSharedEntities = or_limit (cfg_minSharedEntities config) 1,
      cooccurrenceBoost = or_real (cfg_cooccurrenceBoost config) 0.1,
      maxHops = or_limit (cfg_maxHops config) 1,
      hopDecay = or_real (cfg_hopDecay config) 0.7,
      minTraversalConfidence = or_real (cfg_minTraversalConfidence config) 0.6,
      metaPathWeight = or_real (cfg_metaPathWeight config) 0.8\<rparr>"

subsection \<open>SQL LIKE\<close>

text \<open>
  SQLite's \<open>LIKE\<close> without \<open>ESCAPE\<close>: \<open>%\<close> matches any run of characters, \<open>_\<close> any one
  character, and letters match regardless of ASCII case.
\<close>

fun like_match :: "string \<Rightarrow> string \<Rightarrow> bool" where
  "like_match [] t = (t = [])"
| "like_match (p # ps) t =
     (if p = CHR ''%''
      then like_match ps t \<or> (case t of [] \<Rightarrow> False | c # cs \<Rightarrow> like_match (p # ps) cs)
      else (case t of [] \<Rightarrow> False
            | c # cs \<Rightarrow> (p = CHR ''_'' \<or> ascii_lower p = ascii_lower c) \<and> like_match ps cs))"

subsection \<open>searchMultiHop: the recursive CTE\<close>

text \<open>
  A row of the CTE \<open>hop(entity, depth, path, source\_exchange\_id, score)\<close>. \<open>h_visited\<close> is
  not a column: it records the entity sequence of the path (start, then every entity
  reached), which the \<open>path\<close> text only holds interleaved with predicates.
\<close>

record hop =
  h_entity :: string
  h_depth :: nat
  h_path :: string
  h_exchange :: "string option"
  h_score :: real
  h_visited :: "string list"

definition seed_row :: "string list \<Rightarrow> real \<Rightarrow> triple \<Rightarrow> hop" where
  "seed_row seeds d t =
     \<lparr>h_entity = (if subject t \<in> set seeds then object t else subject t),
      h_depth = 1,
      h_path = ''/'' @ subject t @ ''/'' @ predicate t @ ''/'' @ object t @ ''/'',
      h_exchange = source_exchange_id t,
      h_score = confidence t * d,
      h_visited = (if subject t \<in> set seeds then [subject t, object t]
                   else [object t, subject t])\<rparr>"

definition seed_rows :: "store \<Rightarrow> string list \<Rightarrow> string \<Rightarrow> real \<Rightarrow> real \<Rightarrow> hop list" where
  "seed_rows st seeds aid d minConf =
     map (seed_row seeds d)
       (filter (\<lambda>t. (subject t \<in> set seeds \<or> object t \<in> set seeds)
                    \<and> agent_id t = aid \<and> confidence t \<ge> minConf) (triples st))"

definition next_entity :: "hop \<Rightarrow> triple \<Rightarrow> string" where
  "next_entity h t = (if subject t = h_entity h then object t else subject t)"

definition step_row :: "real \<Rightarrow> hop \<Rightarrow> triple \<Rightarrow> hop" where
  "step_row d h t =
     \<lparr>h_entity = next_entity h t,
      h_depth = h_depth h + 1,
      h_path = h_path h @ predicate t @ ''/'' @ next_entity h t @ ''/'',
      h_exchange = source_exchange_id t,
      h_score = h_score h * d,
      h_visited = h_visited h @ [next_entity h t]\<rparr>"

text \<open>The rows the recursive SELECT yields for one row \<open>h\<close> taken from the queue.\<close>

definition expand :: "store \<Rightarrow> string \<Rightarrow> nat \<Rightarrow> real \<Rightarrow> real \<Rightarrow> hop \<Rightarrow> hop list" where
  "expand st aid mh d minConf h =
     map (step_row d h)
       (filter (\<lambda>t. (subject t = h_entity h \<or> object t = h_entity h)
                    \<and> h_depth h < mh
                    \<and> agent_id t = aid
                    \<and> confidence t \<ge> minConf
                    \<and> (\<exists>e \<in> set (entities st). e_id e = h_entity h \<and> e_agent_id e = aid)
                    \<and> \<not> like_match (''%/'' @ next_entity h t @ ''/%'') (h_path h))
          (triples st))"

text \<open>
  SQLite keeps the rows of a recursive CTE in a first-in first-out queue, so the rows come
  out level by level: \<open>frontier\<close> holds the rows of depth \<open>k\<close>, and their expansions form
  the next level. Every row of depth \<open>mh\<close> or more expands to nothing.
\<close>

function hop_rows :: "store \<Rightarrow> string \<Rightarrow> nat \<Rightarrow> real \<Rightarrow> real \<Rightarrow> nat \<Rightarrow> hop list \<Rightarrow> hop list" where
  "hop_rows st aid mh d minConf k frontier =
     (if k < mh \<and> frontier \<noteq> []
      then frontier @ hop_rows st aid mh d minConf (Suc k)
                        (concat (map (expand st aid mh d minConf) frontier))
      else frontier)"
  by pat_completeness auto
termination
  by (relation "measure (\<lambda>(st, aid, mh, d, minConf, k, frontier). mh - k)") auto

declare hop_rows.simps [simp del]

text \<open>
  \<open>SELECT source\_exchange\_id, SUM(score) ... WHERE source\_exchange\_id IS NOT NULL
  GROUP BY source\_exchange\_id\<close>. SQL leaves the order of groups with equal totals open;
  here they are listed in order of first appearance, and nothing proved below depends on how
  such ties fall.

  The statement is well formed for every list of seeds, so the \<open>catch\<close> around it, which
  turns a failed statement into the empty Map, is not a branch of \<open>searchMultiHop\<close> below;
  the same holds for the statements of \<open>searchMetaPaths\<close> and of the pattern evaluation.
\<close>

definition hop_totals :: "hop list \<Rightarrow> (string \<times> real) list" where
  "hop_totals rows =
     (let named = [(ex, h_score h). h \<leftarrow> rows, ex \<leftarrow> (case h_exchange h of None \<Rightarrow> [] | Some x \<Rightarrow> [x])]
      in map (\<lambda>k. (k, sum_list (map snd (filter (\<lambda>r. fst r = k) named)))) (uniq (map fst named)))"

definition searchMultiHop :: "store \<Rightarrow> searcher \<Rightarrow> string list \<Rightarrow> string \<Rightarrow> nat \<Rightarrow> real
     \<Rightarrow> (string \<times> real) list" where
  "searchMultiHop st sr entityIds agentId mh decay =
     (if entityIds = [] then []
      else let d = num_or decay (hopDecay sr);
               minConf = minTraversalConfidence sr
           in take (maxResults sr * 2)
                (sort_key (\<lambda>r. - snd r)
                   (hop_totals (hop_rows st agentId mh d minConf 1
                                  (seed_rows st entityIds agentId d minConf)))))"

subsection \<open>searchMetaPaths\<close>

text \<open>A JavaScript Map from exchange id to score, in insertion order.\<close>

fun map_set :: "string \<Rightarrow> real \<Rightarrow> (string \<times> real) list \<Rightarrow> (string \<times> real) list" where
  "map_set k v [] = [(k, v)]"
| "map_set k v ((k', v') # m) = (if k = k' then (k, v) # m else (k', v') # map_set k v m)"

definition map_get_or0 :: "(string \<times> real) list \<Rightarrow> string \<Rightarrow> real" where
  "map_get_or0 m k = (case map_of m k of None \<Rightarrow> 0 | Some v \<Rightarrow> v)"

definition merge_max :: "(string \<times> real) list \<Rightarrow> (string \<times> real) \<Rightarrow> (string \<times> real) list" where
  "merge_max m r = map_set (fst r) (max (map_get_or0 m (fst r)) (snd r)) m"

definition metaPath_rows :: "store \<Rightarrow> searcher \<Rightarrow> string list \<Rightarrow> string \<Rightarrow> meta_pattern
     \<Rightarrow> (string \<times> real) list" where
  "metaPath_rows st sr entityIds agentId pattern =
     (case predicates pattern of
        [p1, p2] \<Rightarrow>
          take (maxResults sr)
            [(the (source_exchange_id t2), confidence t1 * confidence t2 * weight pattern).
               t1 \<leftarrow> triples st,
               subject t1 \<in> set entityIds \<and> predicate t1 = p1 \<and> agent_id t1 = agentId,
               t2 \<leftarrow> triples st,
               subject t2 = object t1 \<and> predicate t2 = p2 \<and> agent_id t2 = agentId
                 \<and> source_exchange_id t2 \<noteq> None]
      | [p1, p2, p3] \<Rightarrow>
          take (maxResults sr)
            [(the (source_exchange_id t3),
              confidence t1 * confidence t2 * confidence t3 * weight pattern).
               t1 \<leftarrow> triples st,
               subject t1 \<in> set entityIds \<and> predicate t1 = p1 \<and> agent_id t1 = agentId,
               t2 \<leftarrow> triples st,
               subject t2 = object t1 \<and> predicate t2 = p2 \<and> agent_id t2 = agentId,
               t3 \<leftarrow> triples st,
               subject t3 = object t2 \<and> predicate t3 = p3 \<and> agent_id t3 = agentId
                 \<and> source_exchange_id t3 \<noteq> None]
      | _ \<Rightarrow> [])"

definition searchMetaPaths :: "store \<Rightarrow> searcher \<Rightarrow> string list \<Rightarrow> string \<Rightarrow> meta_pattern list
     \<Rightarrow> (string \<times> real) list" where
  "searchMetaPaths st sr entityIds agentId patterns =
     (if entityIds = [] \<or> patterns = [] then []
      else foldl (\<lambda>results pattern.
                    foldl (\<lambda>m row. if fst row = [] then m else merge_max m row) results
                      (metaPath_rows st sr entityIds agentId pattern))
             [] patterns)"

subsection \<open>Single-hop link expansion\<close>

record query_entity =
  q_name :: string
  q_type :: string

record exchange_hit =
  x_id :: string
  score :: real
  sharedEntityCount :: nat
  sharedEntities :: "string list"
  maxConfidence :: real
  x_date :: "string option"

record search_result =
  exchanges :: "exchange_hit list"
  r_entities :: "query_entity list"

definition getTriplesByNormalizedId :: "store \<Rightarrow> string \<Rightarrow> string option \<Rightarrow> nat option \<Rightarrow> triple list" where
  "getTriplesByNormalizedId st normalizedId agentId limit =
     take (or_limit limit 50)
       (sort_key (\<lambda>t. - updated_at t)
          (filter (\<lambda>t. (subject t = normalizedId \<or> object t = normalizedId)
                       \<and> agent_id t = or_main agentId) (triples st)))"

text \<open>The Map \<open>exchangeScores\<close>: entries in insertion order, keyed by \<open>x_id\<close>.\<close>

definition fresh_entry :: "string \<Rightarrow> exchange_hit" where
  "fresh_entry ex = \<lparr>x_id = ex, score = 0, sharedEntityCount = 0, sharedEntities = [],
     maxConfidence = 0, x_date = None\<rparr>"

fun update_entry :: "string \<Rightarrow> (exchange_hit \<Rightarrow> exchange_hit) \<Rightarrow> exchange_hit list \<Rightarrow> exchange_hit list" where
  "update_entry ex f [] = [f (fresh_entry ex)]"
| "update_entry ex f (e # es) = (if x_id e = ex then f e # es else e # update_entry ex f es)"

definition newer_date :: "string \<Rightarrow> string option \<Rightarrow> string option" where
  "newer_date d newest =
     (case newest of None \<Rightarrow> Some d
      | Some n \<Rightarrow> if n = [] \<or> d > n then Some d else Some n)"

definition direct_hit :: "string \<Rightarrow> triple \<Rightarrow> exchange_hit \<Rightarrow> exchange_hit" where
  "direct_hit name t entry =
     entry\<lparr>sharedEntities := (if toLowerCase name \<in> set (sharedEntities entry)
                               then sharedEntities entry
                               else sharedEntities entry @ [toLowerCase name]),
           score := score entry + num_or (confidence t) 1,
           maxConfidence := max (maxConfidence entry) (num_or (confidence t) 1),
           x_date := newer_date (source_date t) (x_date entry)\<rparr>"

definition cooc_hit :: "real \<Rightarrow> cooccurrence \<Rightarrow> triple \<Rightarrow> exchange_hit \<Rightarrow> exchange_hit" where
  "cooc_hit boost cooc t entry =
     entry\<lparr>score := score entry + boost * num_or (real_of_int (c_count cooc)) 1,
           x_date := newer_date (source_date t) (x_date entry)\<rparr>"

definition score_triples :: "(triple \<Rightarrow> exchange_hit \<Rightarrow> exchange_hit) \<Rightarrow> triple list
     \<Rightarrow> exchange_hit list \<Rightarrow> exchange_hit list" where
  "score_triples f ts scores =
     foldl (\<lambda>m t. case source_exchange_id t of None \<Rightarrow> m
                  | Some ex \<Rightarrow> if ex = [] then m else update_entry ex (f t) m) scores ts"

definition singleHop_entity :: "store \<Rightarrow> searcher \<Rightarrow> string \<Rightarrow> exchange_hit list \<Rightarrow> query_entity
     \<Rightarrow> exchange_hit list" where
  "singleHop_entity st sr agentId scores entity =
     (let scores1 = score_triples (direct_hit (q_name entity))
                      (getTriplesFor st (q_name entity) (Some agentId) (Some 100)) scores;
          normalizedName = normalizeEntityId (q_name entity)
      in foldl (\<lambda>m cooc.
                  let coocEntityId = (if entity_a cooc = normalizedName then entity_b cooc
                                      else entity_a cooc)
                  in score_triples (cooc_hit (cooccurrenceBoost sr) cooc)
                       (getTriplesByNormalizedId st coocEntityId (Some agentId) (Some 20)) m)
           scores1 (getCooccurrences st (q_name entity) (Some 5)))"

definition singleHopSearch :: "store \<Rightarrow> searcher \<Rightarrow> query_entity list \<Rightarrow> string \<Rightarrow> nat \<Rightarrow> search_result" where
  "singleHopSearch st sr queryEntities agentId limit =
     (let exchangeScores = foldl (singleHop_entity st sr agentId) [] queryEntities;
          results = map (\<lambda>e. e\<lparr>sharedEntityCount := length (sharedEntities e)\<rparr>)
                      (filter (\<lambda>e. length (sharedEntities e) \<ge> minSharedEntities sr) exchangeScores)
      in \<lparr>exchanges = take limit (sort_key (\<lambda>e. - score e) results),
          r_entities = queryEntities\<rparr>)"

subsection \<open>search\<close>

text \<open>
  \<open>search\<close> from the point where the query entities are known: extracting them from the
  query text is the work of the external NLP library and of the gazetteer.
\<close>

definition search :: "store \<Rightarrow> searcher \<Rightarrow> query_entity list \<Rightarrow> string option \<Rightarrow> nat option
     \<Rightarrow> search_result" where
  "search st sr queryEntities agentId limit =
     (let aid = or_main agentId;
          lmt = or_limit limit (maxResults sr)
      in if queryEntities = [] then \<lparr>exchanges = [], r_entities = []\<rparr>
         else if maxHops sr \<le> 1 then singleHopSearch st sr queryEntities aid lmt
         else
           let entityIds = map (\<lambda>e. normalizeEntityId (q_name e)) queryEntities;
               hopResults = searchMultiHop st sr entityIds aid (maxHops sr) (hopDecay sr);
               patterns = getActivePatterns st (Some aid);
               metaResults = searchMetaPaths st sr entityIds aid patterns;
               merged = foldl merge_max hopResults metaResults;
               results = map (\<lambda>(exId, sc).
                                \<lparr>x_id = exId, score = sc, sharedEntityCount = length entityIds,
                                 sharedEntities = entityIds, maxConfidence = sc, x_date = None\<rparr>)
                           merged
           in \<lparr>exchanges = take lmt (sort_key (\<lambda>e. - score e) results),
               r_entities = queryEntities\<rparr>)"

section \<open>Entity resolver (EntityResolver)\<close>

record resolver =
  assumeThreshold :: real
  askThreshold :: real
  pendingMaxAgeDays :: real
  recencyBoostDays :: real
  cooccurrenceMinCount :: real

record resolution_config =
  cfg_assumeThreshold :: "real option"
  cfg_askThreshold :: "real option"
  cfg_pendingMaxAgeDays :: "real option"
  cfg_recencyBoostDays :: "real option"
  cfg_cooccurrenceMinCount :: "real option"

text \<open>\<open>config?.x ?? d\<close>: only a missing value takes the default.\<close>

definition nullish :: "'a option \<Rightarrow> 'a \<Rightarrow> 'a" where
  "nullish c d = (case c of None \<Rightarrow> d | Some x \<Rightarrow> x)"

definition new_resolver :: "resolution_config \<Rightarrow> resolver" where
  "new_resolver config =
     \<lparr>assumeThreshold = nullish (cfg_assumeThreshold config) 0.8,
      askThreshold = nullish (cfg_askThreshold config) 0.4,
      pendingMaxAgeDays = nullish (cfg_pendingMaxAgeDays config) 30,
      recencyBoostDays = nullish (cfg_recencyBoostDays config) 7,
      cooccurrenceMinCount = nullish (cfg_cooccurrenceMinCount config) 2\<rparr>"

datatype tier = Exact | New | Assume | Ask | Defer

text \<open>The result of \<open>resolve\<close>; the text of \<open>graphNote\<close> is left out.\<close>

record resolution =
  r_tier :: tier
  r_confidence :: real
  r_entity :: "entity option"
  r_candidates :: "entity list"

definition daysSinceLastSeen :: "clock \<Rightarrow> entity \<Rightarrow> int" where
  "daysSinceLastSeen clk e =
     (case last_seen e of None \<Rightarrow> 999 | Some t \<Rightarrow> (now clk - t) div 86400)"

definition countContextCooccurrences :: "store \<Rightarrow> string \<Rightarrow> string list \<Rightarrow> int" where
  "countContextCooccurrences st candidateId contextEntities =
     foldl (\<lambda>total ctxName.
              let ctxId = normalizeEntityId ctxName;
                  sorted = sort2 candidateId ctxId;
                  coocs = getCooccurrences_stmt st (fst sorted) (fst sorted) 1
              in foldl (\<lambda>tot c.
                          if (entity_a c = fst sorted \<and> entity_b c = snd sorted)
                             \<or> (entity_a c = snd sorted \<and> entity_b c = fst sorted)
                          then tot + c_count c else tot) total coocs)
       0 contextEntities"

definition recency_boost :: "resolver \<Rightarrow> clock \<Rightarrow> entity \<Rightarrow> real" where
  "recency_boost r clk candidate =
     (let daysSince = daysSinceLastSeen clk candidate
      in if real_of_int daysSince < recencyBoostDays r then 0.3
         else if daysSince < 30 then 0.1 else 0)"

definition cooccurrence_boost :: "resolver \<Rightarrow> store \<Rightarrow> entity \<Rightarrow> string list \<Rightarrow> real" where
  "cooccurrence_boost r st candidate contextEntities =
     (if contextEntities \<noteq> []
      then (let coocCount = countContextCooccurrences st (e_id candidate) contextEntities
            in if real_of_int coocCount \<ge> cooccurrenceMinCount r then 0.2
               else if coocCount > 0 then 0.1 else 0)
      else 0)"

definition mention_boost :: "entity \<Rightarrow> real" where
  "mention_boost candidate =
     (if mention_count candidate > 10 then 0.1
      else if mention_count candidate > 3 then 0.05 else 0)"

definition scoreCandidate :: "resolver \<Rightarrow> clock \<Rightarrow> store \<Rightarrow> entity \<Rightarrow> string list \<Rightarrow> real" where
  "scoreCandidate r clk st candidate contextEntities =
     min 1 (0.5 + recency_boost r clk candidate
                + cooccurrence_boost r st candidate contextEntities
                + mention_boost candidate)"

definition singleCandidateResult :: "resolver \<Rightarrow> entity \<times> real \<Rightarrow> resolution" where
  "singleCandidateResult r candidate =
     (let sc = snd candidate
      in if sc \<ge> assumeThreshold r
         then \<lparr>r_tier = Assume, r_confidence = sc, r_entity = Some (fst candidate), r_candidates = []\<rparr>
         else if sc < askThreshold r
         then \<lparr>r_tier = Ask, r_confidence = sc, r_entity = None, r_candidates = [fst candidate]\<rparr>
         else \<lparr>r_tier = Defer, r_confidence = sc, r_entity = Some (fst candidate), r_candidates = []\<rparr>)"

text \<open>Called with at least two candidates, best first.\<close>

definition multipleCandidateResult :: "resolver \<Rightarrow> clock \<Rightarrow> (entity \<times> real) list \<Rightarrow> resolution" where
  "multipleCandidateResult r clk ranked =
     (let best = fst (ranked ! 0);
          second = fst (ranked ! 1);
          dominance = real_of_int (mention_count best) / real_of_int (max 1 (mention_count second));
          daysSince = daysSinceLastSeen clk best
      in if dominance > 5 \<and> real_of_int daysSince < recencyBoostDays r
         then \<lparr>r_tier = Assume, r_confidence = 0.85, r_entity = Some best, r_candidates = []\<rparr>
         else \<lparr>r_tier = Ask, r_confidence = 0.3, r_entity = None,
               r_candidates = map fst (take 3 ranked)\<rparr>)"

fun starts_with :: "string \<Rightarrow> string \<Rightarrow> bool" where
  "starts_with t [] = True"
| "starts_with [] (c # cs) = False"
| "starts_with (d # ds) (c # cs) = (d = c \<and> starts_with ds cs)"

text \<open>\<open>t.includes(s)\<close>.\<close>

fun str_includes :: "string \<Rightarrow> string \<Rightarrow> bool" where
  "str_includes [] s = (s = [])"
| "str_includes (d # ds) s = (starts_with (d # ds) s \<or> str_includes ds s)"

definition findEntitiesByPrefix :: "store \<Rightarrow> string \<Rightarrow> string option \<Rightarrow> entity list" where
  "findEntitiesByPrefix st pre agentId =
     take 10 (filter (\<lambda>e. like_match (pre @ ''%'') (canonical_name e)
                           \<and> e_agent_id e = or_main agentId) (entities st))"

text \<open>One round of the loop over the recent entities; \<open>seen\<close> is the list of ids so far.\<close>

definition candidate_step :: "string \<Rightarrow> entity list \<Rightarrow> entity \<Rightarrow> entity list" where
  "candidate_step normalizedMention candidates e =
     (if e_id e \<in> set (map e_id candidates) then candidates
      else let canonLower = toLowerCase (canonical_name e)
           in if str_includes canonLower normalizedMention \<or> str_includes normalizedMention canonLower
              then candidates @ [e]
              else if \<exists>alias \<in> set (aliases e).
                        str_includes (toLowerCase alias) normalizedMention
                        \<or> str_includes normalizedMention (toLowerCase alias)
              then candidates @ [e]
              else candidates)"

definition findCandidates :: "store \<Rightarrow> string \<Rightarrow> string \<Rightarrow> entity list" where
  "findCandidates st mention agentId =
     (let normalizedMention = trim (toLowerCase mention);
          n = length normalizedMention;
          prefixResults = findEntitiesByPrefix st
                            (take (max 3 ((3 * n + 4) div 5)) normalizedMention) (Some agentId);
          candidates = foldl (\<lambda>cs r. if e_id r \<in> set (map e_id cs) then cs else cs @ [r])
                         [] prefixResults
      in foldl (candidate_step normalizedMention) candidates (recentEntities st agentId 200))"

definition resolve :: "resolver \<Rightarrow> clock \<Rightarrow> store \<Rightarrow> string \<Rightarrow> string \<Rightarrow> string list \<Rightarrow> resolution" where
  "resolve r clk st mention agentId contextEntities =
     (case getEntity st (normalizeEntityId mention) of
        Some existing \<Rightarrow>
          \<lparr>r_tier = Exact, r_confidence = 1, r_entity = Some existing, r_candidates = []\<rparr>
      | None \<Rightarrow>
          let candidates = findCandidates st mention agentId
          in if candidates = []
             then \<lparr>r_tier = New, r_confidence = 1, r_entity = None, r_candidates = []\<rparr>
             else let scored = sort_key (\<lambda>c. - snd c)
                                 (map (\<lambda>c. (c, scoreCandidate r clk st c contextEntities)) candidates)
                  in if length scored = 1 then singleCandidateResult r (hd scored)
                     else multipleCandidateResult r clk scored)"

subsection \<open>mergeEntities and processPending\<close>

definition clear_pending :: "string \<Rightarrow> string \<Rightarrow> store \<Rightarrow> store" where
  "clear_pending i agentId st =
     st\<lparr>triples := map (\<lambda>t. if (subject t = i \<or> object t = i) \<and> agent_id t = agentId
                             then t\<lparr>pending_resolution := False\<rparr> else t) (triples st)\<rparr>"

definition rewrite_subject :: "clock \<Rightarrow> string \<Rightarrow> string \<Rightarrow> string \<Rightarrow> store \<Rightarrow> nat \<times> store" where
  "rewrite_subject clk keepId mergeId agentId st =
     (length (filter (\<lambda>t. subject t = mergeId \<and> agent_id t = agentId) (triples st)),
      st\<lparr>triples := map (\<lambda>t. if subject t = mergeId \<and> agent_id t = agentId
                              then t\<lparr>subject := keepId, updated_at := now clk\<rparr> else t)
                      (triples st)\<rparr>)"

definition rewrite_object :: "clock \<Rightarrow> string \<Rightarrow> string \<Rightarrow> string \<Rightarrow> store \<Rightarrow> nat \<times> store" where
  "rewrite_object clk keepId mergeId agentId st =
     (length (filter (\<lambda>t. object t = mergeId \<and> agent_id t = agentId) (triples st)),
      st\<lparr>triples := map (\<lambda>t. if object t = mergeId \<and> agent_id t = agentId
                              then t\<lparr>object := keepId, updated_at := now clk\<rparr> else t)
                      (triples st)\<rparr>)"

definition mergeEntities :: "clock \<Rightarrow> store \<Rightarrow> string \<Rightarrow> string \<Rightarrow> string \<Rightarrow> nat \<times> store" where
  "mergeEntities clk st keepId mergeId agentId =
     (case (getEntity st keepId, getEntity st mergeId) of
        (Some keep, Some merge) \<Rightarrow>
          let allAliases = filter (\<lambda>a. a \<noteq> canonical_name keep)
                             (uniq (aliases keep @ aliases merge @ [canonical_name merge]));
              st1 = st\<lparr>entities := map (\<lambda>e. if e_id e = keepId
                          then e\<lparr>aliases := allAliases,
                                 mention_count := mention_count e + mention_count merge\<rparr>
                          else e) (entities st)\<rparr>;
              (subjectUpdated, st2) = rewrite_subject clk keepId mergeId agentId st1;
              (objectUpdated, st3) = rewrite_object clk keepId mergeId agentId st2;
              st4 = clear_pending keepId agentId st3;
              st5 = st4\<lparr>entities := filter (\<lambda>e. e_id e \<noteq> mergeId) (entities st4)\<rparr>
          in (subjectUpdated + objectUpdated, st5)
      | _ \<Rightarrow> (0, st))"

definition pending_entities :: "store \<Rightarrow> string \<Rightarrow> string list" where
  "pending_entities st agentId =
     (let pending = filter (\<lambda>t. pending_resolution t \<and> agent_id t = agentId) (triples st)
      in uniq (map subject pending @ map object pending))"

definition processPending_step :: "resolver \<Rightarrow> clock \<Rightarrow> string \<Rightarrow> (nat \<times> nat) \<times> store \<Rightarrow> string
     \<Rightarrow> (nat \<times> nat) \<times> store" where
  "processPending_step r clk agentId acc entity_id =
     (let ((resolved, expired), st) = acc
      in case getEntity st entity_id of
           None \<Rightarrow> acc
         | Some e \<Rightarrow>
             let daysSince = daysSinceLastSeen clk e
             in if mention_count e > 1 \<or> real_of_int daysSince < recencyBoostDays r
                then ((Suc resolved, expired), clear_pending entity_id agentId st)
                else if real_of_int daysSince > pendingMaxAgeDays r
                then ((resolved, Suc expired), clear_pending entity_id agentId st)
                else acc)"

definition processPending :: "resolver \<Rightarrow> clock \<Rightarrow> string \<Rightarrow> store \<Rightarrow> (nat \<times> nat) \<times> store" where
  "processPending r clk agentId st =
     foldl (processPending_step r clk agentId) ((0, 0), st) (pending_entities st agentId)"

section \<open>Pattern discovery (lib/pattern-discovery.js)\<close>

record discovery =
  maxActivePatterns :: int
  maxStaticPatterns :: int
  minYield :: real
  maxOverlapRatio :: real
  maxFanoutPerStep :: real
  maxCandidateLength :: nat

record discovery_config =
  cfg_maxActivePatterns :: "int option"
  cfg_maxStaticPatterns :: "int option"
  cfg_minYield :: "real option"
  cfg_maxOverlapRatio :: "real option"
  cfg_maxFanoutPerStep :: "real option"
  cfg_maxCandidateLength :: "nat option"

definition or_int :: "int option \<Rightarrow> int \<Rightarrow> int" where
  "or_int c d = (case c of None \<Rightarrow> d | Some x \<Rightarrow> if x = 0 then d else x)"

definition new_discovery :: "discovery_config \<Rightarrow> discovery" where
  "new_discovery config =
     \<lparr>maxActivePatterns = or_int (cfg_maxActivePatterns config) 12,
      maxStaticPatterns = or_int (cfg_maxStaticPatterns config) 5,
      minYield = or_real (cfg_minYield config) 3,
      maxOverlapRatio = or_real (cfg_maxOverlapRatio config) 0.9,
      maxFanoutPerStep = or_real (cfg_maxFanoutPerStep config) 50,
      maxCandidateLength = or_limit (cfg_maxCandidateLength config) 3\<rparr>"

record evaluation =
  ev_yield :: nat
  ev_overlapRatio :: real
  ev_avgConfidence :: real

text \<open>\<open>1.0 / (1.0 + (julianday('now') - julianday(updated\_at)) / 90.0)\<close>.\<close>

definition recency :: "clock \<Rightarrow> triple \<Rightarrow> real" where
  "recency clk t = 1 / (1 + age_days clk (updated_at t) / 90)"

text \<open>\<open>SELECT 1 FROM triples WHERE subject = ? AND object = ? AND agent\_id = ? LIMIT 1\<close>.\<close>

definition direct_edge :: "store \<Rightarrow> string \<Rightarrow> string \<Rightarrow> string \<Rightarrow> bool" where
  "direct_edge st src dst agentId \<longleftrightarrow>
     (\<exists>t \<in> set (triples st). subject t = src \<and> object t = dst \<and> agent_id t = agentId)"

text \<open>The part of \<open>\_evaluate2Step\<close> and \<open>\_evaluate3Step\<close> after the pair query.\<close>

definition measure_pairs :: "discovery \<Rightarrow> store \<Rightarrow> string \<Rightarrow> (string \<times> string \<times> real) list
     \<Rightarrow> evaluation option" where
  "measure_pairs pd st agentId pairRows =
     (if real (length pairRows) < minYield pd then None
      else let directCount = length (filter (\<lambda>(src, dst, c). direct_edge st src dst agentId) pairRows);
               totalConf = sum_list (map (\<lambda>(src, dst, c). c) pairRows)
           in Some \<lparr>ev_yield = length pairRows,
                    ev_overlapRatio = (if length pairRows > 0
                                       then real directCount / real (length pairRows) else 1),
                    ev_avgConfidence = (if length pairRows > 0
                                        then totalConf / real (length pairRows) else 0)\<rparr>)"

text \<open>
  The joins are nested loops over the table, \<open>t1\<close> outermost; \<open>SELECT DISTINCT ... LIMIT 200\<close>
  keeps the first 200 distinct rows. SQL leaves the scan order open.
\<close>

definition evaluate2Step :: "discovery \<Rightarrow> clock \<Rightarrow> store \<Rightarrow> string \<Rightarrow> string \<Rightarrow> string
     \<Rightarrow> evaluation option" where
  "evaluate2Step pd clk st p1 p2 agentId =
     measure_pairs pd st agentId
       (take 200 (uniq
          [(subject t1, object t2,
            confidence t1 * confidence t2 * recency clk t1 * recency clk t2).
             t1 \<leftarrow> triples st, predicate t1 = p1 \<and> agent_id t1 = agentId,
             t2 \<leftarrow> triples st,
             subject t2 = object t1 \<and> predicate t2 = p2 \<and> agent_id t2 = agentId]))"

definition evaluate3Step :: "discovery \<Rightarrow> clock \<Rightarrow> store \<Rightarrow> string \<Rightarrow> string \<Rightarrow> string \<Rightarrow> string
     \<Rightarrow> evaluation option" where
  "evaluate3Step pd clk st p1 p2 p3 agentId =
     measure_pairs pd st agentId
       (take 200 (uniq
          [(subject t1, object t3,
            confidence t1 * confidence t2 * confidence t3
              * recency clk t1 * recency clk t2 * recency clk t3).
             t1 \<leftarrow> triples st, predicate t1 = p1 \<and> agent_id t1 = agentId,
             t2 \<leftarrow> triples st,
             subject t2 = object t1 \<and> predicate t2 = p2 \<and> agent_id t2 = agentId,
             t3 \<leftarrow> triples st,
             subject t3 = object t2 \<and> predicate t3 = p3 \<and> agent_id t3 = agentId]))"

definition evaluatePattern :: "discovery \<Rightarrow> clock \<Rightarrow> store \<Rightarrow> string list \<Rightarrow> string
     \<Rightarrow> evaluation option" where
  "evaluatePattern pd clk st preds agentId =
     (case preds of
        [p1, p2] \<Rightarrow> evaluate2Step pd clk st p1 p2 agentId
      | [p1, p2, p3] \<Rightarrow> evaluate3Step pd clk st p1 p2 p3 agentId
      | _ \<Rightarrow> None)"

text \<open>The object \<open>fanout\<close>: defined on the qualifying predicates only.\<close>

definition fanout :: "predicate_stat list \<Rightarrow> string \<Rightarrow> real option" where
  "fanout qualifying p =
     (case find (\<lambda>s. ps_predicate s = p) (rev qualifying) of
        None \<Rightarrow> None
      | Some s \<Rightarrow> Some (real (cnt s) / real (max (unique_subjects s) 1)))"

definition fanout_ok :: "discovery \<Rightarrow> predicate_stat list \<Rightarrow> string list \<Rightarrow> bool" where
  "fanout_ok pd qualifying preds \<longleftrightarrow>
     (\<exists>p \<in> set preds. case fanout qualifying p of None \<Rightarrow> False | Some f \<Rightarrow> f < 10)
     \<and> foldl (\<lambda>acc p. acc * (case fanout qualifying p of None \<Rightarrow> 1 | Some f \<Rightarrow> num_or f 1)) 1 preds
         < maxFanoutPerStep pd ^ length preds"

definition generate_candidates :: "discovery \<Rightarrow> string list \<Rightarrow> string list list" where
  "generate_candidates pd predicateNames =
     [[p1, p2]. p1 \<leftarrow> predicateNames, p2 \<leftarrow> predicateNames]
     @ (if length predicateNames \<le> 6 \<and> maxCandidateLength pd \<ge> 3
        then [[p1, p2, p3]. p1 \<leftarrow> predicateNames, p2 \<leftarrow> predicateNames, p3 \<leftarrow> predicateNames]
        else [])"

record scored_pattern =
  sc_predicates :: "string list"
  sc_yield :: nat
  sc_overlapRatio :: real
  sc_avgConfidence :: real
  sc_score :: real

text \<open>Step 5 of \<open>discover\<close> for one candidate: evaluate it and apply the novelty gate.\<close>

definition score_candidate :: "discovery \<Rightarrow> clock \<Rightarrow> store \<Rightarrow> string \<Rightarrow> string list
     \<Rightarrow> scored_pattern list" where
  "score_candidate pd clk st aid preds =
     (case evaluatePattern pd clk st preds aid of
        None \<Rightarrow> []
      | Some result \<Rightarrow>
          if ev_overlapRatio result \<le> maxOverlapRatio pd \<and> real (ev_yield result) \<ge> minYield pd
          then [\<lparr>sc_predicates = preds, sc_yield = ev_yield result,
                 sc_overlapRatio = ev_overlapRatio result,
                 sc_avgConfidence = ev_avgConfidence result,
                 sc_score = real (ev_yield result) * (1 - ev_overlapRatio result)
                              * ev_avgConfidence result\<rparr>]
          else [])"

definition new_candidates :: "discovery \<Rightarrow> store \<Rightarrow> string \<Rightarrow> string list list" where
  "new_candidates pd st aid =
     (let predStats = getPredicateStats st (Some aid);
          qualifying = filter (\<lambda>p. cnt p \<ge> 5) predStats
      in if length predStats < 2 \<or> length qualifying < 2 then []
         else let candidates = generate_candidates pd (map ps_predicate qualifying);
                  fanoutSurvivors = filter (fanout_ok pd qualifying) candidates;
                  existing = getActivePatterns st (Some aid)
              in filter (\<lambda>preds. preds \<notin> set (map predicates existing)) fanoutSurvivors)"

text \<open>Steps 1 to 6 of \<open>discover\<close>: the ranked candidates that fit the free discovery slots.\<close>

definition toSave :: "discovery \<Rightarrow> clock \<Rightarrow> store \<Rightarrow> string \<Rightarrow> scored_pattern list" where
  "toSave pd clk st aid =
     (let scored = sort_key (\<lambda>p. - sc_score p)
                     (concat (map (score_candidate pd clk st aid) (new_candidates pd st aid)));
          existing = getActivePatterns st (Some aid);
          staticCount = int (length (filter (\<lambda>p. p_type p = Static) existing));
          discoverySlots = maxActivePatterns pd - staticCount;
          discoveredCount = int (length (filter (\<lambda>p. p_type p = Discovered) existing));
          slotsAvailable = max 0 (discoverySlots - discoveredCount)
      in take (nat slotsAvailable) scored)"

text \<open>Step 7: save what was selected. The store after \<open>discover\<close> and the number saved.\<close>

definition discover :: "discovery \<Rightarrow> clock \<Rightarrow> string option \<Rightarrow> store \<Rightarrow> nat \<times> store" where
  "discover pd clk agentId st =
     (let aid = or_main agentId;
          selected = toSave pd clk st aid
      in (length selected,
          foldl (\<lambda>s p. snd (savePattern clk (Some aid) (sc_predicates p) (min (sc_score p) 1)
                               (real (sc_yield p)) (sc_overlapRatio p) s))
            st selected))"

text \<open>Whether validatePatterns retires a pattern given its fresh evaluation.\<close>

definition retire :: "discovery \<Rightarrow> evaluation option \<Rightarrow> bool" where
  "retire pd result \<longleftrightarrow>
     (case result of
        None \<Rightarrow> True
      | Some r \<Rightarrow> real (ev_yield r) < minYield pd \<or> ev_overlapRatio r > maxOverlapRatio pd)"

definition validate_step :: "discovery \<Rightarrow> clock \<Rightarrow> string \<Rightarrow> (nat \<times> nat) \<times> store \<Rightarrow> meta_pattern
     \<Rightarrow> (nat \<times> nat) \<times> store" where
  "validate_step pd clk aid acc pattern =
     (let ((validated, retired), st) = acc
      in if p_type pattern = Static then acc
         else let result = evaluatePattern pd clk st (predicates pattern) aid
              in if retire pd result
                 then ((validated, Suc retired), deactivatePattern (p_id pattern) st)
                 else let r = the result
                      in ((Suc validated, retired),
                          snd (savePattern clk (Some aid) (predicates pattern)
                                 (min (real (ev_yield r) * (1 - ev_overlapRatio r)
                                         * ev_avgConfidence r) 1)
                                 (real (ev_yield r)) (ev_overlapRatio r) st)))"

definition validatePatterns :: "discovery \<Rightarrow> clock \<Rightarrow> string option \<Rightarrow> store \<Rightarrow> (nat \<times> nat) \<times> store" where
  "validatePatterns pd clk agentId st =
     (let aid = or_main agentId
      in foldl (validate_step pd clk aid) ((0, 0), st) (getActivePatterns st (Some aid)))"

section \<open>Invariants and views used in the statements\<close>

subsection \<open>Keys\<close>

text \<open>The primary keys the database enforces: row ids are distinct and never exceed the sequence.\<close>

definition wf_store :: "store \<Rightarrow> bool" where
  "wf_store st \<longleftrightarrow>
     distinct (map t_id (triples st)) \<and> (\<forall>t \<in> set (triples st). t_id t \<le> triple_seq st) \<and>
     distinct (map p_id (meta_patterns st)) \<and>
     (\<forall>p \<in> set (meta_patterns st). p_id p \<le> pattern_seq st)"


definition triple_key :: "triple \<Rightarrow> string \<times> string \<times> string \<times> string" where
  "triple_key t = (subject t, predicate t, object t, agent_id t)"

text \<open>At most one row per (subject, predicate, object, agent).\<close>

definition triple_unique :: "store \<Rightarrow> bool" where
  "triple_unique st \<longleftrightarrow> distinct (map triple_key (triples st))"

subsection \<open>Order of a result\<close>


subsection \<open>The batch of writeExchange, step by step\<close>

text \<open>
  What it means for the whole batch to land: every entity upsert, then every triple add, then
  every co-occurrence bump, each done with the store operation itself and none failing.
  \<open>batch_ok\<close> holds when no item of the batch is malformed and the storage layer raises at
  none of its steps.
\<close>

definition item_ok :: "triple_item \<Rightarrow> bool" where
  "item_ok t \<longleftrightarrow> i_subject t \<noteq> None \<and> i_predicate t \<noteq> None \<and> i_object t \<noteq> None"

definition pair_ok :: "string option \<times> string option \<Rightarrow> bool" where
  "pair_ok c \<longleftrightarrow> fst c \<noteq> None \<and> snd c \<noteq> None"

definition batch_wellformed :: "exchange_args \<Rightarrow> bool" where
  "batch_wellformed x \<longleftrightarrow>
     (\<forall>e \<in> set (x_entities x). i_name e \<noteq> None)
     \<and> (\<forall>t \<in> set (x_triples x). item_ok t)
     \<and> (\<forall>c \<in> set (x_cooccurrences x). pair_ok c)"

definition batch_steps :: "exchange_args \<Rightarrow> nat" where
  "batch_steps x = length (x_entities x) + length (x_triples x) + length (x_cooccurrences x)"

definition batch_entities :: "clock \<Rightarrow> string \<Rightarrow> entity_item list \<Rightarrow> store \<Rightarrow> store" where
  "batch_entities clk aid es st =
     foldl (\<lambda>s e. snd (upsertEntity clk (the (i_name e)) (i_type e) (Some aid) s)) st es"

definition item_args :: "string \<Rightarrow> string option \<Rightarrow> string \<Rightarrow> triple_item \<Rightarrow> triple_args" where
  "item_args aid ex date t =
     \<lparr>a_subject = the (i_subject t), a_predicate = the (i_predicate t), a_object = the (i_object t),
      a_confidence = i_confidence t, a_sourceExchangeId = ex, a_sourceDate = Some date,
      a_agentId = Some aid, a_pendingResolution = False\<rparr>"

definition batch_triples :: "clock \<Rightarrow> string \<Rightarrow> string option \<Rightarrow> string \<Rightarrow> triple_item list
     \<Rightarrow> nat list \<times> store \<Rightarrow> nat list \<times> store" where
  "batch_triples clk aid ex date ts acc =
     foldl (\<lambda>(ids, s) t. let (i, s') = addTriple clk (item_args aid ex date t) s
                          in (ids @ [i], s')) acc ts"

definition batch_cooccurrences :: "clock \<Rightarrow> (string option \<times> string option) list \<Rightarrow> store \<Rightarrow> store" where
  "batch_cooccurrences clk cs st =
     foldl (\<lambda>s c. bumpCooccurrence clk (the (fst c)) (the (snd c)) s) st cs"

definition batch_applied :: "clock \<Rightarrow> exchange_args \<Rightarrow> store \<Rightarrow> nat list \<times> store" where
  "batch_applied clk x st =
     (let aid = or_main (x_agentId x);
          date = or_str (x_sourceDate x) (today clk);
          (ids, st2) = batch_triples clk aid (x_sourceExchangeId x) date (x_triples x)
                         ([], batch_entities clk aid (x_entities x) st)
      in (ids, batch_cooccurrences clk (x_cooccurrences x) st2))"

definition batch_ok :: "(nat \<Rightarrow> bool) \<Rightarrow> exchange_args \<Rightarrow> bool" where
  "batch_ok faults x \<longleftrightarrow> batch_wellformed x \<and> (\<forall>k < batch_steps x. \<not> faults k)"

definition has_row :: "store \<Rightarrow> nat \<Rightarrow> string \<Rightarrow> string \<Rightarrow> string \<Rightarrow> string \<Rightarrow> bool" where
  "has_row st i s p ob aid \<longleftrightarrow>
     (\<exists>t \<in> set (triples st). t_id t = i \<and> subject t = s \<and> predicate t = p \<and> object t = ob
        \<and> agent_id t = aid)"

definition touches :: "store \<Rightarrow> string \<Rightarrow> nat \<Rightarrow> triple_item \<Rightarrow> bool" where
  "touches st aid i t \<longleftrightarrow>
     has_row st i (normalizeEntityId (the (i_subject t))) (the (i_predicate t))
       (normalizeEntityId (the (i_object t))) aid"

subsection \<open>Paths of the traversal\<close>

text \<open>The text \<open>/e/\<close> occurs in the path.\<close>

definition on_path :: "string \<Rightarrow> string \<Rightarrow> bool" where
  "on_path e path \<longleftrightarrow> (\<exists>pre post. path = pre @ ''/'' @ e @ ''/'' @ post)"

text \<open>What holds of every row of the CTE.\<close>

definition path_ok :: "store \<Rightarrow> string list \<Rightarrow> string \<Rightarrow> hop \<Rightarrow> bool" where
  "path_ok st seeds aid h \<longleftrightarrow>
     length (h_visited h) = Suc (h_depth h) \<and> 1 \<le> h_depth h
     \<and> (\<forall>e \<in> set (h_visited h). on_path e (h_path h))
     \<and> distinct (tl (h_visited h))
     \<and> h_visited h ! 0 \<notin> set (drop 2 (h_visited h))
     \<and> (h_visited h ! 0 = h_visited h ! 1 \<longrightarrow>
          (\<exists>t \<in> set (triples st). subject t = object t \<and> subject t \<in> set seeds
              \<and> agent_id t = aid))"

subsection \<open>The reads of one agent\<close>




subsection \<open>Pattern rows\<close>

text \<open>The rows of the pattern table for one predicate sequence and agent.\<close>

definition pattern_rows :: "store \<Rightarrow> string list \<Rightarrow> string \<Rightarrow> meta_pattern list" where
  "pattern_rows st preds aid =
     filter (\<lambda>p. predicates p = preds \<and> p_agent_id p = aid) (meta_patterns st)"

text \<open>The row with this id is switched off.\<close>

definition inactive :: "store \<Rightarrow> nat \<Rightarrow> bool" where
  "inactive s i \<longleftrightarrow> (\<exists>row \<in> set (meta_patterns s). p_id row = i \<and> \<not> active row)"

text \<open>What the loop of validatePatterns keeps true of the pattern \<open>p\<close> it started with.\<close>

definition val_inv :: "store \<Rightarrow> meta_pattern \<Rightarrow> store \<Rightarrow> bool" where
  "val_inv st p s \<longleftrightarrow>
     wf_store s \<and> triples s = triples st
     \<and> (\<exists>row \<in> set (meta_patterns s). p_id row = p_id p \<and> predicates row = predicates p)"

section \<open>Scenarios\<close>

text \<open>
  Concrete stores, each built from the empty store with the operations above, for the
  examples of the spec and for the instances at which the theorems are checked.
\<close>

definition clk0 :: clock where
  "clk0 = \<lparr>now = 1000000, today = ''2026-01-01''\<rparr>"

definition chris_knows_dan :: "real \<Rightarrow> triple_args" where
  "chris_knows_dan c = \<lparr>a_subject = ''chris'', a_predicate = ''knows'', a_object = ''dan'',
     a_confidence = Some c, a_sourceExchangeId = None, a_sourceDate = None,
     a_agentId = None, a_pendingResolution = False\<rparr>"

definition clk_day :: "int \<Rightarrow> clock" where
  "clk_day n = \<lparr>now = n * 86400, today = ''2026-01-01''\<rparr>"

definition decay_store :: store where
  "decay_store =
     snd (addTriple (clk_day 95) (chris_knows_dan 0.6)
       (snd (addTriple (clk_day 0)
               \<lparr>a_subject = ''dan'', a_predicate = ''works_on'', a_object = ''dashboard'',
                a_confidence = Some 0.8, a_sourceExchangeId = None, a_sourceDate = None,
                a_agentId = None, a_pendingResolution = False\<rparr>
          (snd (addTriple (clk_day 0)
               \<lparr>a_subject = ''chris'', a_predicate = ''created'', a_object = ''dashboard'',
                a_confidence = Some 0.05, a_sourceExchangeId = None, a_sourceDate = None,
                a_agentId = None, a_pendingResolution = False\<rparr> empty_store)))))"

definition bob_store :: store where
  "bob_store = snd (upsertEntity (clk_day 0) ''Bob Martinez'' (Some ''PERSON'') None empty_store)"

definition default_resolver :: resolver where
  "default_resolver = new_resolver \<lparr>cfg_assumeThreshold = None, cfg_askThreshold = None,
     cfg_pendingMaxAgeDays = None, cfg_recencyBoostDays = None, cfg_cooccurrenceMinCount = None\<rparr>"

definition bob_entity :: entity where
  "bob_entity = \<lparr>e_id = ''bob_martinez'', canonical_name = ''Bob Martinez'', entity_type = ''PERSON'',
     first_seen = 0, last_seen = Some 0, mention_count = 1, aliases = [], e_agent_id = ''main''\<rparr>"

definition knows :: "string \<Rightarrow> string \<Rightarrow> triple_args" where
  "knows s ob = \<lparr>a_subject = s, a_predicate = ''knows'', a_object = ob,
     a_confidence = None, a_sourceExchangeId = None, a_sourceDate = None,
     a_agentId = None, a_pendingResolution = False\<rparr>"


definition x_demo :: exchange_args where
  "x_demo = \<lparr>x_entities = [\<lparr>i_name = Some ''Chris'', i_type = Some ''PERSON''\<rparr>,
                             \<lparr>i_name = Some ''Dan'', i_type = None\<rparr>],
              x_triples = [\<lparr>i_subject = Some ''Chris'', i_predicate = Some ''knows'',
                            i_object = Some ''Dan'', i_confidence = Some 0.9\<rparr>],
              x_cooccurrences = [(Some ''Chris'', Some ''Dan'')],
              x_agentId = None, x_sourceExchangeId = Some ''ex1'', x_sourceDate = None\<rparr>"

definition merge_store :: store where
  "merge_store =
     snd (addTriple clk0 (knows ''Bob Martinez'' ''Dan'')
       (snd (addTriple clk0 (knows ''Bob M'' ''Dan'')
         (snd (upsertEntity clk0 ''Dan'' (Some ''PERSON'') None
           (snd (upsertEntity clk0 ''Bob Martinez'' (Some ''PERSON'') None
             (snd (upsertEntity clk0 ''Bob M'' (Some ''PERSON'') None empty_store)))))))))"

definition cycle_store :: store where
  "cycle_store =
     snd (addTriple clk0 (knows ''D'' ''A'')
       (snd (addTriple clk0 (knows ''C'' ''D'')
         (snd (addTriple clk0 (knows ''B'' ''C'')
           (snd (addTriple clk0 (knows ''A'' ''B'')
             (snd (upsertEntity clk0 ''D'' None None
               (snd (upsertEntity clk0 ''C'' None None
                 (snd (upsertEntity clk0 ''B'' None None
                   (snd (upsertEntity clk0 ''A'' None None empty_store)))))))))))))))"

definition cycle_rows :: "hop list" where
  "cycle_rows = hop_rows cycle_store ''main'' 3 0.7 0.6 1
                  (seed_rows cycle_store [''a''] ''main'' 0.7 0.6)"

definition loop_store :: store where
  "loop_store =
     snd (addTriple clk0 (knows ''A'' ''B'')
       (snd (addTriple clk0 (knows ''A'' ''A'')
         (snd (upsertEntity clk0 ''B'' None None
           (snd (upsertEntity clk0 ''A'' None None empty_store)))))))"

definition loop_rows :: "hop list" where
  "loop_rows = hop_rows loop_store ''main'' 2 0.7 0.6 1
                 (seed_rows loop_store [''a''] ''main'' 0.7 0.6)"

definition exchange1 :: "string \<Rightarrow> string \<Rightarrow> string \<Rightarrow> string \<Rightarrow> real \<Rightarrow> exchange_args" where
  "exchange1 ex s p ob c =
     \<lparr>x_entities = [\<lparr>i_name = Some s, i_type = None\<rparr>, \<lparr>i_name = Some ob, i_type = None\<rparr>],
      x_triples = [\<lparr>i_subject = Some s, i_predicate = Some p, i_object = Some ob,
                    i_confidence = Some c\<rparr>],
      x_cooccurrences = [], x_agentId = Some ''main'', x_sourceExchangeId = Some ex,
      x_sourceDate = None\<rparr>"

definition e2e_store :: store where
  "e2e_store =
     snd (writeExchange clk0 (\<lambda>k. False) (exchange1 ''ex3'' ''dan'' ''works_on'' ''dashboard'' 0.8)
       (snd (writeExchange clk0 (\<lambda>k. False) (exchange1 ''ex2'' ''chris'' ''knows'' ''dan'' 0.9)
         (snd (writeExchange clk0 (\<lambda>k. False)
                 (exchange1 ''ex1'' ''chris'' ''created'' ''dashboard'' 0.9) empty_store)))))"

definition searcher2 :: searcher where
  "searcher2 = new_searcher \<lparr>cfg_maxResults = None, cfg_minSharedEntities = None,
     cfg_cooccurrenceBoost = None, cfg_maxHops = Some 2, cfg_hopDecay = Some 0.7,
     cfg_minTraversalConfidence = Some 0.6, cfg_metaPathWeight = None\<rparr>"

definition e2e_rows :: "hop list" where
  "e2e_rows = hop_rows e2e_store ''main'' 2 0.7 0.6 1 (seed_rows e2e_store [''chris''] ''main'' 0.7 0.6)"

text \<open>The exchanges the search seeded with chris returns, each with its score.\<close>

definition e2e_hits :: "(string \<times> real) list" where
  "e2e_hits =
     map (\<lambda>h. (x_id h, score h))
       (exchanges (search e2e_store searcher2 [\<lparr>q_name = ''chris'', q_type = ''PERSON''\<rparr>]
                     None None))"




definition edge :: "string \<Rightarrow> string \<Rightarrow> string \<Rightarrow> triple_args" where
  "edge s p ob = \<lparr>a_subject = s, a_predicate = p, a_object = ob,
     a_confidence = None, a_sourceExchangeId = None, a_sourceDate = None,
     a_agentId = None, a_pendingResolution = False\<rparr>"

definition overlap_store :: store where
  "overlap_store =
     snd (savePattern clk0 None [''knows'', ''works_on''] 0.5 3 0
       (foldl (\<lambda>s a. snd (addTriple clk0 a s)) empty_store
          [edge ''a1'' ''knows'' ''b1'', edge ''b1'' ''works_on'' ''c1'', edge ''a1'' ''created'' ''c1'',
           edge ''a2'' ''knows'' ''b2'', edge ''b2'' ''works_on'' ''c2'', edge ''a2'' ''created'' ''c2'',
           edge ''a3'' ''knows'' ''b3'', edge ''b3'' ''works_on'' ''c3'', edge ''a3'' ''created'' ''c3'']))"

definition default_discovery :: discovery where
  "default_discovery = new_discovery \<lparr>cfg_maxActivePatterns = None, cfg_maxStaticPatterns = None,
     cfg_minYield = None, cfg_maxOverlapRatio = None, cfg_maxFanoutPerStep = None,
     cfg_maxCandidateLength = None\<rparr>"

section \<open>Basic facts\<close>






section \<open>Triple deduplication\<close>



section \<open>Confidence decay\<close>

text \<open>
  Claim C5. decayStaleTriples halves the confidence of exactly the rows of the agent that were
  last updated more than halfLifeDays days ago and whose confidence exceeds 0.1; every other
  row is unchanged, no confidence grows, no row is deleted, and the returned count is the
  number of rows halved.
\<close>

theorem C5_decay:
  assumes run: "decayStaleTriples clk agentId halfLifeDays st = (n, st')"
    and hl: "hl = (case halfLifeDays of None \<Rightarrow> 90 | Some d \<Rightarrow> d)"
  shows "length (triples st') = length (triples st)
     \<and> (\<forall>i < length (triples st).
           t_id (triples st' ! i) = t_id (triples st ! i)
         \<and> confidence (triples st' ! i) \<le> confidence (triples st ! i)
         \<and> (if agent_id (triples st ! i) = or_main agentId
               \<and> real_of_int (now clk - updated_at (triples st ! i)) / 86400 > hl
               \<and> confidence (triples st ! i) > 0.1
             then triples st' ! i = (triples st ! i)\<lparr>confidence := confidence (triples st ! i) * 0.5\<rparr>
             else triples st' ! i = triples st ! i))
     \<and> n = length (filter (\<lambda>t. agent_id t = or_main agentId
               \<and> real_of_int (now clk - updated_at t) / 86400 > hl
               \<and> confidence t > 0.1) (triples st))
     \<and> entities st' = entities st \<and> cooccurrences st' = cooccurrences st
     \<and> meta_patterns st' = meta_patterns st"
proof -
  let ?sel = "decay_selected clk (or_main agentId) hl"
  have sel: "?sel t \<longleftrightarrow> agent_id t = or_main agentId
               \<and> real_of_int (now clk - updated_at t) / 86400 > hl \<and> confidence t > 0.1" for t
    by (auto simp: decay_selected_def age_days_def)
  have st': "st' = st\<lparr>triples := map (\<lambda>t. if ?sel t
                  then t\<lparr>confidence := confidence t * 0.5, updated_at := updated_at t\<rparr>
                  else t) (triples st)\<rparr>"
    and n: "n = length (filter ?sel (triples st))"
    using run by (auto simp: decayStaleTriples_def Let_def hl)
  have mono: "?sel t \<Longrightarrow> confidence t * 0.5 \<le> confidence t" for t
    by (simp add: decay_selected_def)
  show ?thesis
    unfolding st' n using mono by (auto simp: sel cong: filter_cong)
qed

text \<open>
  Three rows at day 100 with a half-life of 90 days: one stale but below the floor, one stale
  (halved from 0.8 to 0.4), one updated at day 95.
\<close>

lemma decay_store_triples:
  "triples decay_store =
     [\<lparr>t_id = 1, subject = ''chris'', predicate = ''created'', object = ''dashboard'',
       confidence = 0.05, source_exchange_id = None, source_date = ''2026-01-01'',
       created_at = 0, updated_at = 0, agent_id = ''main'', pending_resolution = False\<rparr>,
      \<lparr>t_id = 2, subject = ''dan'', predicate = ''works_on'', object = ''dashboard'',
       confidence = 0.8, source_exchange_id = None, source_date = ''2026-01-01'',
       created_at = 0, updated_at = 0, agent_id = ''main'', pending_resolution = False\<rparr>,
      \<lparr>t_id = 3, subject = ''chris'', predicate = ''knows'', object = ''dan'',
       confidence = 0.6, source_exchange_id = None, source_date = ''2026-01-01'',
       created_at = 8208000, updated_at = 8208000, agent_id = ''main'', pending_resolution = False\<rparr>]"
  by (simp add: decay_store_def addTriple_def insertTriple_def findTriple_def empty_store_def
      chris_knows_dan_def clk_day_def or_main_def or_one_def or_null_def or_str_def
      normalizeEntityId_def toLowerCase_def trim_def is_space_def ascii_lower_def Let_def)

theorem C5_decay_witness:
  "length (triples decay_store) = 3
   \<and> fst (decayStaleTriples (clk_day 100) None (Some 90) decay_store) = 1
   \<and> confidence (triples (snd (decayStaleTriples (clk_day 100) None (Some 90) decay_store)) ! 0) = 0.05
   \<and> confidence (triples (snd (decayStaleTriples (clk_day 100) None (Some 90) decay_store)) ! 1) = 0.4
   \<and> confidence (triples (snd (decayStaleTriples (clk_day 100) None (Some 90) decay_store)) ! 2) = 0.6"
proof -
  let ?r = "decayStaleTriples (clk_day 100) None (Some 90) decay_store"
  let ?stale = "\<lambda>t. agent_id t = or_main None
               \<and> real_of_int (now (clk_day 100) - updated_at t) / 86400 > 90
               \<and> confidence t > 0.1"
  have run: "?r = (fst ?r, snd ?r)" by simp
  have hl: "(90::real) = (case Some 90 of None \<Rightarrow> 90 | Some d \<Rightarrow> d)" by simp
  note c5 = C5_decay [OF run hl]
  from c5 have len: "length (triples (snd ?r)) = 3"
    by (simp add: decay_store_triples)
  from c5 have n: "fst ?r = length (filter ?stale (triples decay_store))"
    by blast
  from c5 have each: "\<forall>i < length (triples decay_store).
      (if ?stale (triples decay_store ! i)
       then triples (snd ?r) ! i = (triples decay_store ! i)
              \<lparr>confidence := confidence (triples decay_store ! i) * 0.5\<rparr>
       else triples (snd ?r) ! i = triples decay_store ! i)"
    by blast
  have c0: "confidence (triples (snd ?r) ! 0) = 0.05"
    using each [rule_format, of 0] by (simp add: decay_store_triples clk_day_def or_main_def)
  have c1: "confidence (triples (snd ?r) ! 1) = 0.4"
    using each [rule_format, of 1] by (simp add: decay_store_triples clk_day_def or_main_def)
  have c2: "confidence (triples (snd ?r) ! 2) = 0.6"
    using each [rule_format, of 2] by (simp add: decay_store_triples clk_day_def or_main_def)
  have n1: "fst ?r = 1"
    unfolding n by (simp add: decay_store_triples clk_day_def or_main_def)
  show ?thesis using n1 c0 c1 c2 by (simp add: decay_store_triples)
qed

section \<open>Resolver score floor\<close>

lemma boosts_nonneg:
  "0 \<le> recency_boost r clk c" "recency_boost r clk c \<le> 0.3"
  "0 \<le> cooccurrence_boost r st c ctx" "0 \<le> mention_boost c"
  by (simp_all add: recency_boost_def cooccurrence_boost_def mention_boost_def Let_def)

lemma score_bounds:
  "1/2 \<le> scoreCandidate r clk st c ctx \<and> scoreCandidate r clk st c ctx \<le> 1"
  using boosts_nonneg(1)[of r clk c] boosts_nonneg(3)[of r st c ctx] boosts_nonneg(4)[of c]
  by (simp add: scoreCandidate_def)

text \<open>
  Claim C10. The score of any candidate lies between 0.5 and 1. Hence with an ask threshold
  of at most 0.5 the single-candidate result is never ask, and resolve with no exact match
  and exactly one candidate returns assume when the score reaches the assume threshold and
  defer otherwise.
\<close>

theorem C10_resolver_score_floor:
  "1/2 \<le> scoreCandidate r clk st c ctx \<and> scoreCandidate r clk st c ctx \<le> 1
   \<and> (askThreshold r \<le> 1/2 \<longrightarrow>
        r_tier (singleCandidateResult r (c, scoreCandidate r clk st c ctx)) \<noteq> Ask)
   \<and> (askThreshold r \<le> 1/2 \<and> getEntity st (normalizeEntityId mention) = None
        \<and> findCandidates st mention agentId = [c] \<longrightarrow>
        r_tier (resolve r clk st mention agentId ctx)
          = (if assumeThreshold r \<le> scoreCandidate r clk st c ctx then Assume else Defer))"
proof -
  have b: "1/2 \<le> scoreCandidate r clk st c ctx" "scoreCandidate r clk st c ctx \<le> 1"
    using score_bounds by blast+
  have single: "askThreshold r \<le> 1/2 \<Longrightarrow>
      r_tier (singleCandidateResult r (c, scoreCandidate r clk st c ctx))
        = (if assumeThreshold r \<le> scoreCandidate r clk st c ctx then Assume else Defer)"
    using b(1) by (simp add: singleCandidateResult_def Let_def)
  have res: "getEntity st (normalizeEntityId mention) = None \<Longrightarrow>
      findCandidates st mention agentId = [c] \<Longrightarrow>
      resolve r clk st mention agentId ctx
        = singleCandidateResult r (c, scoreCandidate r clk st c ctx)"
    by (simp add: resolve_def Let_def)
  show ?thesis using b single res by auto
qed

text \<open>
  The mention Bob against a store that knows Bob Martinez, last seen ten days ago: one
  candidate with score 0.6, deferred under the default thresholds.
\<close>

lemma bob_candidates: "findCandidates bob_store ''Bob'' ''main'' = [bob_entity]"
  by code_simp

lemma bob_not_exact: "getEntity bob_store (normalizeEntityId ''Bob'') = None"
  by code_simp

lemma bob_score: "scoreCandidate default_resolver (clk_day 10) bob_store bob_entity [] = 0.6"
  by (simp add: scoreCandidate_def recency_boost_def cooccurrence_boost_def mention_boost_def
      daysSinceLastSeen_def default_resolver_def new_resolver_def nullish_def clk_day_def
      bob_entity_def)

theorem C10_resolver_score_floor_witness:
  "askThreshold default_resolver \<le> 1/2
   \<and> getEntity bob_store (normalizeEntityId ''Bob'') = None
   \<and> findCandidates bob_store ''Bob'' ''main'' = [bob_entity]
   \<and> r_tier (resolve default_resolver (clk_day 10) bob_store ''Bob'' ''main'' []) = Defer"
proof -
  have ask: "askThreshold default_resolver \<le> 1/2"
    by (simp add: default_resolver_def new_resolver_def nullish_def)
  have asm: "\<not> assumeThreshold default_resolver \<le> 0.6"
    by (simp add: default_resolver_def new_resolver_def nullish_def)
  from C10_resolver_score_floor [of default_resolver "clk_day 10" bob_store bob_entity "[]"
      "''Bob''" "''main''"]
  have "r_tier (resolve default_resolver (clk_day 10) bob_store ''Bob'' ''main'' []) = Defer"
    using ask asm bob_not_exact bob_candidates by (simp add: bob_score)
  then show ?thesis using ask bob_not_exact bob_candidates by simp
qed

section \<open>getTriplesFor\<close>












section \<open>writeExchange is atomic\<close>

lemma register_entities_ok:
  "(\<forall>e \<in> set es. i_name e \<noteq> None) \<Longrightarrow> (\<forall>j < length es. \<not> faults (k + j)) \<Longrightarrow>
   register_entities clk faults aid k es st = Inr (batch_entities clk aid es st)"
proof (induction es arbitrary: k st)
  case Nil
  then show ?case by (simp add: batch_entities_def)
next
  case (Cons e es)
  from Cons.prems obtain name where name: "i_name e = Some name" by auto
  have f0: "\<not> faults k" using Cons.prems(2) [rule_format, of 0] by simp
  have rest: "\<forall>j < length es. \<not> faults (Suc k + j)"
    using Cons.prems(2) by (auto dest: spec [of _ "Suc _"])
  show ?case
    using Cons.IH [OF _ rest] Cons.prems(1) name f0 by (simp add: batch_entities_def)
qed

lemma register_entities_fail:
  "\<not> ((\<forall>e \<in> set es. i_name e \<noteq> None) \<and> (\<forall>j < length es. \<not> faults (k + j))) \<Longrightarrow>
   \<exists>err. register_entities clk faults aid k es st = Inl err"
proof (induction es arbitrary: k st)
  case Nil
  then show ?case by simp
next
  case (Cons e es)
  show ?case
  proof (cases "i_name e")
    case None
    then show ?thesis by simp
  next
    case (Some name)
    show ?thesis
    proof (cases "faults k")
      case True
      then show ?thesis using Some by simp
    next
      case False
      have "\<not> ((\<forall>e \<in> set es. i_name e \<noteq> None) \<and> (\<forall>j < length es. \<not> faults (Suc k + j)))"
      proof
        assume a: "(\<forall>e \<in> set es. i_name e \<noteq> None) \<and> (\<forall>j < length es. \<not> faults (Suc k + j))"
        have "\<forall>j < length (e # es). \<not> faults (k + j)"
        proof (intro allI impI)
          fix j assume "j < length (e # es)"
          then show "\<not> faults (k + j)" using a False by (cases j) auto
        qed
        with a Some Cons.prems show False by auto
      qed
      from Cons.IH [OF this] show ?thesis using Some False by simp
    qed
  qed
qed

lemma faults_tail:
  "\<forall>j < length (x # xs). \<not> faults (k + j) \<Longrightarrow> \<not> faults k \<and> (\<forall>j < length xs. \<not> faults (Suc k + j))"
proof
  assume a: "\<forall>j < length (x # xs). \<not> faults (k + j)"
  show "\<not> faults k" using a [rule_format, of 0] by simp
  show "\<forall>j < length xs. \<not> faults (Suc k + j)"
  proof (intro allI impI)
    fix j assume "j < length xs"
    then show "\<not> faults (Suc k + j)" using a [rule_format, of "Suc j"] by simp
  qed
qed

lemma faults_cons:
  "\<not> faults k \<Longrightarrow> \<forall>j < length xs. \<not> faults (Suc k + j) \<Longrightarrow> \<forall>j < length (x # xs). \<not> faults (k + j)"
proof (intro allI impI)
  fix j assume a: "\<not> faults k" "\<forall>j < length xs. \<not> faults (Suc k + j)" "j < length (x # xs)"
  then show "\<not> faults (k + j)" by (cases j) auto
qed

lemma write_triples_step_ok:
  "item_ok t \<Longrightarrow> \<not> faults k \<Longrightarrow>
   write_triples clk faults aid ex date k (t # ts) ids st =
     (let (i, st') = addTriple clk (item_args aid ex date t) st
      in write_triples clk faults aid ex date (Suc k) ts (ids @ [i]) st')"
  by (auto simp: item_ok_def item_args_def exchange_triple_def)

lemma write_triples_step_fail:
  "\<not> item_ok t \<or> faults k \<Longrightarrow> \<exists>err. write_triples clk faults aid ex date k (t # ts) ids st = Inl err"
  by (cases "i_subject t"; cases "i_predicate t"; cases "i_object t") (auto simp: item_ok_def)

lemma write_triples_ok:
  "(\<forall>t \<in> set ts. item_ok t) \<Longrightarrow> (\<forall>j < length ts. \<not> faults (k + j)) \<Longrightarrow>
   write_triples clk faults aid ex date k ts ids st = Inr (batch_triples clk aid ex date ts (ids, st))"
proof (induction ts arbitrary: k ids st)
  case Nil
  then show ?case by (simp add: batch_triples_def)
next
  case (Cons t ts)
  from faults_tail [OF Cons.prems(2)]
  have f0: "\<not> faults k" and rest: "\<forall>j < length ts. \<not> faults (Suc k + j)" by blast+
  have ok: "item_ok t" and oks: "\<forall>t \<in> set ts. item_ok t" using Cons.prems(1) by auto
  obtain i st' where a: "addTriple clk (item_args aid ex date t) st = (i, st')" by fastforce
  show ?case
    using Cons.IH [OF oks rest, of "ids @ [i]" st'] a ok f0
    by (simp add: write_triples_step_ok batch_triples_def del: write_triples.simps)
qed

lemma write_triples_fail:
  "\<not> ((\<forall>t \<in> set ts. item_ok t) \<and> (\<forall>j < length ts. \<not> faults (k + j))) \<Longrightarrow>
   \<exists>err. write_triples clk faults aid ex date k ts ids st = Inl err"
proof (induction ts arbitrary: k ids st)
  case Nil
  then show ?case by simp
next
  case (Cons t ts)
  show ?case
  proof (cases "item_ok t \<and> \<not> faults k")
    case False
    then show ?thesis using write_triples_step_fail [of t faults k] by blast
  next
    case True
    have "\<not> ((\<forall>t \<in> set ts. item_ok t) \<and> (\<forall>j < length ts. \<not> faults (Suc k + j)))"
      using Cons.prems True faults_cons [of faults k ts t] by auto
    from Cons.IH [OF this] show ?thesis
      using True by (simp add: write_triples_step_ok split: prod.splits del: write_triples.simps)
  qed
qed

lemma update_cooccurrences_ok:
  "(\<forall>c \<in> set cs. pair_ok c) \<Longrightarrow> (\<forall>j < length cs. \<not> faults (k + j)) \<Longrightarrow>
   update_cooccurrences clk faults k cs st = Inr (batch_cooccurrences clk cs st)"
proof (induction cs arbitrary: k st)
  case Nil
  then show ?case by (simp add: batch_cooccurrences_def)
next
  case (Cons c cs)
  from faults_tail [OF Cons.prems(2)]
  have f0: "\<not> faults k" and rest: "\<forall>j < length cs. \<not> faults (Suc k + j)" by blast+
  obtain a b where c: "c = (Some a, Some b)" using Cons.prems(1) by (cases c) (auto simp: pair_ok_def)
  show ?case
    using Cons.IH [OF _ rest] Cons.prems(1) f0 by (simp add: c batch_cooccurrences_def)
qed

lemma update_cooccurrences_fail:
  "\<not> ((\<forall>c \<in> set cs. pair_ok c) \<and> (\<forall>j < length cs. \<not> faults (k + j))) \<Longrightarrow>
   \<exists>err. update_cooccurrences clk faults k cs st = Inl err"
proof (induction cs arbitrary: k st)
  case Nil
  then show ?case by simp
next
  case (Cons c cs)
  show ?case
  proof (cases "pair_ok c \<and> \<not> faults k")
    case False
    then show ?thesis by (cases c; cases "fst c"; cases "snd c") (auto simp: pair_ok_def)
  next
    case True
    then obtain a b where c: "c = (Some a, Some b)" by (cases c) (auto simp: pair_ok_def)
    have "\<not> ((\<forall>c \<in> set cs. pair_ok c) \<and> (\<forall>j < length cs. \<not> faults (Suc k + j)))"
      using Cons.prems True faults_cons [of faults k cs c] by auto
    from Cons.IH [OF this] show ?thesis using True by (simp add: c)
  qed
qed

lemma or_main_idem: "or_main (Some (or_main a)) = or_main a"
  by (simp add: or_main_def split: option.splits)

lemma has_row_map:
  assumes "has_row st i s p ob aid"
    and "\<And>t. t_id (f t) = t_id t \<and> subject (f t) = subject t \<and> predicate (f t) = predicate t
            \<and> object (f t) = object t \<and> agent_id (f t) = agent_id t"
  shows "has_row (st\<lparr>triples := map f (triples st)\<rparr>) i s p ob aid"
proof -
  from assms(1) obtain t where t: "t \<in> set (triples st)" "t_id t = i" "subject t = s"
      "predicate t = p" "object t = ob" "agent_id t = aid"
    by (auto simp: has_row_def)
  have "f t \<in> set (map f (triples st))" using t(1) by simp
  moreover have "t_id (f t) = i" "subject (f t) = s" "predicate (f t) = p" "object (f t) = ob"
      "agent_id (f t) = aid"
    using t assms(2) by auto
  ultimately show ?thesis unfolding has_row_def by (intro bexI [of _ "f t"]) simp_all
qed

lemma has_row_updateTripleConfidence:
  "has_row st i s p ob aid \<Longrightarrow> has_row (updateTripleConfidence clk c j st) i s p ob aid"
  unfolding updateTripleConfidence_def by (rule has_row_map) auto

lemma has_row_insertTriple:
  "has_row st i s p ob aid \<Longrightarrow>
   has_row (snd (insertTriple clk s' p' ob' c ex d aid' pend st)) i s p ob aid"
  by (auto simp: has_row_def insertTriple_def Let_def)

lemma findTriple_has_row:
  "findTriple st s p ob aid = Some existing \<Longrightarrow> has_row st (t_id existing) s p ob aid"
  by (auto simp: findTriple_def find_Some_iff has_row_def)

lemma addTriple_has_row:
  assumes "addTriple clk a st = (i, st')"
  shows "has_row st' i (normalizeEntityId (a_subject a)) (a_predicate a)
           (normalizeEntityId (a_object a)) (or_main (a_agentId a))"
proof (cases "findTriple st (normalizeEntityId (a_subject a)) (a_predicate a)
                (normalizeEntityId (a_object a)) (or_main (a_agentId a))")
  case None
  then show ?thesis
    using assms by (auto simp: addTriple_def insertTriple_def has_row_def Let_def)
next
  case (Some existing)
  from assms Some have "i = t_id existing"
    and "st' = updateTripleConfidence clk (or_one (a_confidence a)) (t_id existing) st"
    by (auto simp: addTriple_def Let_def)
  then show ?thesis
    using has_row_updateTripleConfidence [OF findTriple_has_row [OF Some]] by simp
qed

lemma has_row_addTriple:
  assumes "has_row st i s p ob aid"
  shows "has_row (snd (addTriple clk a st)) i s p ob aid"
proof (cases "findTriple st (normalizeEntityId (a_subject a)) (a_predicate a)
                (normalizeEntityId (a_object a)) (or_main (a_agentId a))")
  case None
  then show ?thesis
    using has_row_insertTriple [OF assms] by (simp add: addTriple_def Let_def)
next
  case (Some existing)
  then show ?thesis
    using has_row_updateTripleConfidence [OF assms] by (simp add: addTriple_def Let_def)
qed

lemma touches_addTriple: "touches st aid i t \<Longrightarrow> touches (snd (addTriple clk a st)) aid i t"
  by (simp add: touches_def has_row_addTriple)

lemma batch_triples_touches:
  assumes "or_main (Some aid) = aid"
  shows "list_all2 (touches st aid) ids0 ts0 \<Longrightarrow>
         batch_triples clk aid ex date ts (ids0, st) = (ids, st') \<Longrightarrow>
         list_all2 (touches st' aid) ids (ts0 @ ts)"
proof (induction ts arbitrary: ids0 ts0 st)
  case Nil
  then show ?case by (simp add: batch_triples_def)
next
  case (Cons t ts)
  obtain i st1 where a: "addTriple clk (item_args aid ex date t) st = (i, st1)" by fastforce
  have new: "touches st1 aid i t"
    using addTriple_has_row [OF a] assms by (simp add: touches_def item_args_def)
  have old: "list_all2 (touches st1 aid) ids0 ts0"
    using Cons.prems(1) touches_addTriple [of st aid _ _ clk "item_args aid ex date t"] a
    by (auto elim!: list_all2_mono)
  have "list_all2 (touches st1 aid) (ids0 @ [i]) (ts0 @ [t])"
    using old new by (simp add: list_all2_appendI)
  moreover have "batch_triples clk aid ex date ts (ids0 @ [i], st1) = (ids, st')"
    using Cons.prems(2) a by (simp add: batch_triples_def)
  ultimately show ?case using Cons.IH [of st1 "ids0 @ [i]" "ts0 @ [t]"] by simp
qed

lemma triples_bumpCooccurrence [simp]: "triples (bumpCooccurrence clk a b st) = triples st"
  by (simp add: bumpCooccurrence_def upsertCooccurrence_def Let_def)

lemma triples_batch_cooccurrences: "triples (batch_cooccurrences clk cs st) = triples st"
  unfolding batch_cooccurrences_def by (induction cs arbitrary: st) auto

lemma touches_cong: "triples st' = triples st \<Longrightarrow> touches st' = touches st"
  by (auto simp: touches_def has_row_def fun_eq_iff)

lemma batch_ok_split:
  "batch_ok faults x \<longleftrightarrow>
     ((\<forall>e \<in> set (x_entities x). i_name e \<noteq> None)
        \<and> (\<forall>j < length (x_entities x). \<not> faults (0 + j)))
     \<and> ((\<forall>t \<in> set (x_triples x). item_ok t)
        \<and> (\<forall>j < length (x_triples x). \<not> faults (length (x_entities x) + j)))
     \<and> ((\<forall>c \<in> set (x_cooccurrences x). pair_ok c)
        \<and> (\<forall>j < length (x_cooccurrences x).
              \<not> faults (length (x_entities x) + length (x_triples x) + j)))"
  (is "?L \<longleftrightarrow> ?R")
proof
  let ?ne = "length (x_entities x)" and ?nt = "length (x_triples x)"
  let ?nc = "length (x_cooccurrences x)"
  assume l: ?L
  then have wf: "batch_wellformed x" and nf: "\<And>k. k < ?ne + ?nt + ?nc \<Longrightarrow> \<not> faults k"
    by (simp_all add: batch_ok_def batch_steps_def)
  have "\<forall>j < ?ne. \<not> faults (0 + j)" using nf by simp
  moreover have "\<forall>j < ?nt. \<not> faults (?ne + j)" using nf by simp
  moreover have "\<forall>j < ?nc. \<not> faults (?ne + ?nt + j)" using nf by simp
  ultimately show ?R using wf unfolding batch_wellformed_def by blast
next
  let ?ne = "length (x_entities x)" and ?nt = "length (x_triples x)"
  let ?nc = "length (x_cooccurrences x)"
  assume r: ?R
  then have fe: "\<And>j. j < ?ne \<Longrightarrow> \<not> faults (0 + j)"
    and ft: "\<And>j. j < ?nt \<Longrightarrow> \<not> faults (?ne + j)"
    and fc: "\<And>j. j < ?nc \<Longrightarrow> \<not> faults (?ne + ?nt + j)"
    by blast+
  have "\<not> faults k" if k: "k < batch_steps x" for k
  proof -
    consider "k < ?ne" | "?ne \<le> k" "k < ?ne + ?nt" | "?ne + ?nt \<le> k" by linarith
    then show ?thesis
    proof cases
      case 1
      then show ?thesis using fe [of k] by simp
    next
      case 2
      then have "k - ?ne < ?nt" by simp
      from ft [OF this] 2 show ?thesis by simp
    next
      case 3
      then have "k - (?ne + ?nt) < ?nc"
        using k by (simp add: batch_steps_def)
      from fc [OF this] 3 show ?thesis by simp
    qed
  qed
  moreover have "batch_wellformed x" using r unfolding batch_wellformed_def by blast
  ultimately show ?L unfolding batch_ok_def by blast
qed

lemma writeExchange_body_ok:
  assumes "batch_ok faults x"
  shows "writeExchange_body clk faults x st = Inr (batch_applied clk x st)"
proof -
  let ?aid = "or_main (x_agentId x)" and ?date = "or_str (x_sourceDate x) (today clk)"
  let ?ne = "length (x_entities x)" and ?nt = "length (x_triples x)"
  from assms [unfolded batch_ok_split]
  have E: "\<forall>e \<in> set (x_entities x). i_name e \<noteq> None" "\<forall>j < ?ne. \<not> faults (0 + j)"
    and T: "\<forall>t \<in> set (x_triples x). item_ok t" "\<forall>j < ?nt. \<not> faults (?ne + j)"
    and C: "\<forall>c \<in> set (x_cooccurrences x). pair_ok c"
           "\<forall>j < length (x_cooccurrences x). \<not> faults (?ne + ?nt + j)"
    by blast+
  have e: "register_entities clk faults ?aid 0 (x_entities x) st
             = Inr (batch_entities clk ?aid (x_entities x) st)"
    by (rule register_entities_ok [OF E])
  have t: "write_triples clk faults ?aid (x_sourceExchangeId x) ?date ?ne (x_triples x) [] s
             = Inr (batch_triples clk ?aid (x_sourceExchangeId x) ?date (x_triples x) ([], s))" for s
    by (rule write_triples_ok [OF T])
  have c: "update_cooccurrences clk faults (?ne + ?nt) (x_cooccurrences x) s
             = Inr (batch_cooccurrences clk (x_cooccurrences x) s)" for s
    by (rule update_cooccurrences_ok [OF C])
  obtain ids st2 where b: "batch_triples clk ?aid (x_sourceExchangeId x) ?date (x_triples x)
                         ([], batch_entities clk ?aid (x_entities x) st) = (ids, st2)"
    by fastforce
  show ?thesis
    unfolding writeExchange_body_def batch_applied_def Let_def
    by (simp add: e t c b)
qed

lemma writeExchange_body_fail:
  assumes "\<not> batch_ok faults x"
  shows "\<exists>err. writeExchange_body clk faults x st = Inl err"
proof -
  let ?aid = "or_main (x_agentId x)" and ?date = "or_str (x_sourceDate x) (today clk)"
  let ?ne = "length (x_entities x)" and ?nt = "length (x_triples x)"
  let ?E = "(\<forall>e \<in> set (x_entities x). i_name e \<noteq> None) \<and> (\<forall>j < ?ne. \<not> faults (0 + j))"
  let ?T = "(\<forall>t \<in> set (x_triples x). item_ok t) \<and> (\<forall>j < ?nt. \<not> faults (?ne + j))"
  let ?C = "(\<forall>c \<in> set (x_cooccurrences x). pair_ok c)
             \<and> (\<forall>j < length (x_cooccurrences x). \<not> faults (?ne + ?nt + j))"
  from assms have cases: "\<not> ?E \<or> \<not> ?T \<or> \<not> ?C" unfolding batch_ok_split by blast
  show ?thesis
  proof (cases "register_entities clk faults ?aid 0 (x_entities x) st")
    case (Inl err)
    then show ?thesis by (simp add: writeExchange_body_def Let_def)
  next
    case (Inr st1)
    have E: ?E
    proof (rule ccontr)
      assume "\<not> ?E"
      from register_entities_fail [OF this, of clk ?aid st] Inr show False by auto
    qed
    show ?thesis
    proof (cases "write_triples clk faults ?aid (x_sourceExchangeId x) ?date ?ne (x_triples x) [] st1")
      case (Inl err)
      then show ?thesis using Inr by (simp add: writeExchange_body_def Let_def)
    next
      case (Inr r)
      have T: ?T
      proof (rule ccontr)
        assume "\<not> ?T"
        from write_triples_fail [OF this, of clk ?aid "x_sourceExchangeId x" ?date "[]" st1] Inr
        show False by auto
      qed
      with E cases have "\<not> ?C" by blast
      from update_cooccurrences_fail [OF this, of clk "snd r"]
      obtain err where "update_cooccurrences clk faults (?ne + ?nt) (x_cooccurrences x) (snd r) = Inl err"
        by blast
      then show ?thesis
        using \<open>register_entities clk faults ?aid 0 (x_entities x) st = Inr st1\<close> Inr
        by (cases r) (simp add: writeExchange_body_def Let_def)
    qed
  qed
qed

lemma writeExchange_ok:
  assumes ok: "batch_ok faults x"
  shows "writeExchange clk faults x st = (Inr (fst (batch_applied clk x st)), snd (batch_applied clk x st))"
  unfolding writeExchange_def transaction_def writeExchange_body_ok [OF ok]
  by (cases "batch_applied clk x st") simp

lemma writeExchange_fail:
  assumes "\<not> batch_ok faults x"
  shows "\<exists>err. writeExchange clk faults x st = (Inl err, st)"
proof -
  from writeExchange_body_fail [OF assms, of clk st]
  obtain err where "writeExchange_body clk faults x st = Inl err" by blast
  then have "writeExchange clk faults x st = (Inl err, st)"
    unfolding writeExchange_def transaction_def by simp
  then show ?thesis by blast
qed

lemma batch_applied_touches:
  "list_all2 (touches (snd (batch_applied clk x st)) (or_main (x_agentId x)))
     (fst (batch_applied clk x st)) (x_triples x)"
proof -
  let ?aid = "or_main (x_agentId x)" and ?date = "or_str (x_sourceDate x) (today clk)"
  obtain ids st2 where b: "batch_triples clk ?aid (x_sourceExchangeId x) ?date (x_triples x)
                         ([], batch_entities clk ?aid (x_entities x) st) = (ids, st2)"
    by fastforce
  have "list_all2 (touches (batch_entities clk ?aid (x_entities x) st) ?aid) [] []" by simp
  from batch_triples_touches [OF or_main_idem this b]
  have t: "list_all2 (touches st2 ?aid) ids (x_triples x)" by simp
  have ap: "batch_applied clk x st = (ids, batch_cooccurrences clk (x_cooccurrences x) st2)"
    unfolding batch_applied_def Let_def b by simp
  have "touches (batch_cooccurrences clk (x_cooccurrences x) st2) = touches st2"
    by (rule touches_cong) (rule triples_batch_cooccurrences)
  then show ?thesis unfolding ap using t by simp
qed

text \<open>
  Claim C6. A call of writeExchange either lands the whole batch or nothing. When no item is
  malformed and the storage layer raises at no step, the call returns the ids of the triples
  touched, one per triple of the batch and each the id of a stored row with that triple's
  key, and the store is the one reached by applying every upsert, add and bump in order.
  Otherwise the call fails with the error raised and the store is the one before the call.
\<close>

theorem C6_writeExchange_atomic:
  assumes run: "writeExchange clk faults x st = (res, st')"
  shows "(batch_ok faults x \<longrightarrow>
            res = Inr (fst (batch_applied clk x st)) \<and> st' = snd (batch_applied clk x st)
            \<and> list_all2 (touches st' (or_main (x_agentId x)))
                 (fst (batch_applied clk x st)) (x_triples x))
       \<and> (\<not> batch_ok faults x \<longrightarrow> (\<exists>err. res = Inl err) \<and> st' = st)"
proof (cases "batch_ok faults x")
  case True
  from writeExchange_ok [OF True, of clk st] run
  have "res = Inr (fst (batch_applied clk x st))" and "st' = snd (batch_applied clk x st)"
    by simp_all
  then show ?thesis using True batch_applied_touches [of clk x st] by simp
next
  case False
  from writeExchange_fail [OF False, of clk st] run
  have "(\<exists>err. res = Inl err) \<and> st' = st" by auto
  then show ?thesis using False by simp
qed

text \<open>
  A batch of two entities, one triple and one pair: it lands as a whole without faults, and
  a storage fault at its last step (the co-occurrence bump) leaves the empty store empty.
\<close>

theorem C6_writeExchange_atomic_witness:
  "fst (writeExchange clk0 (\<lambda>k. False) x_demo empty_store) = Inr [1]
   \<and> map t_id (triples (snd (writeExchange clk0 (\<lambda>k. False) x_demo empty_store))) = [1]
   \<and> map e_id (entities (snd (writeExchange clk0 (\<lambda>k. False) x_demo empty_store))) = [''chris'', ''dan'']
   \<and> map c_count (cooccurrences (snd (writeExchange clk0 (\<lambda>k. False) x_demo empty_store))) = [1]
   \<and> snd (writeExchange clk0 (\<lambda>k. k = 3) x_demo empty_store) = empty_store"
proof -
  let ?good = "writeExchange clk0 (\<lambda>k. False) x_demo empty_store"
  let ?bad = "writeExchange clk0 (\<lambda>k. k = 3) x_demo empty_store"
  have ok: "batch_ok (\<lambda>k. False) x_demo"
    by (simp add: batch_ok_def batch_wellformed_def item_ok_def pair_ok_def x_demo_def)
  have "batch_steps x_demo = 4" by (simp add: batch_steps_def x_demo_def)
  then have nok: "\<not> batch_ok (\<lambda>k. k = 3) x_demo"
    by (simp add: batch_ok_def)
  have ids: "fst (batch_applied clk0 x_demo empty_store) = [1]" by code_simp
  have rows: "map t_id (triples (snd (batch_applied clk0 x_demo empty_store))) = [1]" by code_simp
  have ents: "map e_id (entities (snd (batch_applied clk0 x_demo empty_store))) = [''chris'', ''dan'']"
    by code_simp
  have coocs: "map c_count (cooccurrences (snd (batch_applied clk0 x_demo empty_store))) = [1]"
    by code_simp
  have g: "?good = (fst ?good, snd ?good)" and b: "?bad = (fst ?bad, snd ?bad)" by simp_all
  from C6_writeExchange_atomic [OF g] ok
  have "fst ?good = Inr [1]" and "snd ?good = snd (batch_applied clk0 x_demo empty_store)"
    by (simp_all add: ids)
  moreover from C6_writeExchange_atomic [OF b] nok
  have "snd ?bad = empty_store" by simp
  ultimately show ?thesis using rows ents coocs by simp
qed

section \<open>Uniqueness of triples\<close>

text \<open>
  addTriple, writeExchange, decayStaleTriples and processPending keep at most one row per
  (subject, predicate, object, agent): they insert only a key that is absent and never
  change the key of a row.
\<close>

lemma triple_key_update [simp]:
  "triple_key (t\<lparr>confidence := c\<rparr>) = triple_key t"
  "triple_key (t\<lparr>updated_at := u\<rparr>) = triple_key t"
  "triple_key (t\<lparr>pending_resolution := b\<rparr>) = triple_key t"
  by (simp_all add: triple_key_def)

lemma triple_unique_map:
  "(\<And>t. triple_key (f t) = triple_key t) \<Longrightarrow>
   triple_unique (st\<lparr>triples := map f (triples st)\<rparr>) = triple_unique st"
  by (simp add: triple_unique_def comp_def)

lemma addTriple_unique:
  assumes "triple_unique st"
  shows "triple_unique (snd (addTriple clk a st))"
proof (cases "findTriple st (normalizeEntityId (a_subject a)) (a_predicate a)
                (normalizeEntityId (a_object a)) (or_main (a_agentId a))")
  case None
  then have "(normalizeEntityId (a_subject a), a_predicate a, normalizeEntityId (a_object a),
              or_main (a_agentId a)) \<notin> triple_key ` set (triples st)"
    by (auto simp: findTriple_def find_None_iff triple_key_def)
  then show ?thesis
    using assms None
    by (simp add: addTriple_def insertTriple_def Let_def triple_unique_def triple_key_def)
next
  case (Some existing)
  have "triple_unique (updateTripleConfidence clk c i st)" for c i
    unfolding updateTripleConfidence_def using assms by (subst triple_unique_map) auto
  then show ?thesis using Some by (simp add: addTriple_def Let_def)
qed

lemma decayStaleTriples_unique:
  "triple_unique st \<Longrightarrow> triple_unique (snd (decayStaleTriples clk agentId halfLifeDays st))"
  unfolding decayStaleTriples_def Let_def snd_conv by (subst triple_unique_map) auto

lemma clear_pending_unique: "triple_unique st \<Longrightarrow> triple_unique (clear_pending i agentId st)"
  unfolding clear_pending_def by (subst triple_unique_map) auto

lemma processPending_step_unique:
  "triple_unique (snd acc) \<Longrightarrow> triple_unique (snd (processPending_step r clk agentId acc e))"
  by (auto simp: processPending_step_def Let_def clear_pending_unique split: prod.splits option.splits)

lemma processPending_unique:
  assumes "triple_unique st"
  shows "triple_unique (snd (processPending r clk agentId st))"
proof -
  have "triple_unique (snd acc) \<Longrightarrow>
        triple_unique (snd (foldl (processPending_step r clk agentId) acc es))" for acc es
    by (induction es arbitrary: acc) (auto simp: processPending_step_unique)
  then show ?thesis using assms by (simp add: processPending_def)
qed

lemma triple_unique_cong: "triples st' = triples st \<Longrightarrow> triple_unique st' = triple_unique st"
  by (simp add: triple_unique_def)

lemma triples_upsertEntity [simp]: "triples (snd (upsertEntity clk name ty agentId st)) = triples st"
  by (simp add: upsertEntity_def upsertEntity_stmt_def Let_def)

lemma triples_batch_entities: "triples (batch_entities clk aid es st) = triples st"
  unfolding batch_entities_def by (induction es arbitrary: st) auto

lemma batch_triples_unique:
  "triple_unique st \<Longrightarrow> triple_unique (snd (batch_triples clk aid ex date ts (ids, st)))"
proof (induction ts arbitrary: ids st)
  case Nil
  then show ?case by (simp add: batch_triples_def)
next
  case (Cons t ts)
  obtain i st1 where a: "addTriple clk (item_args aid ex date t) st = (i, st1)" by fastforce
  then have "triple_unique st1" using addTriple_unique [OF Cons.prems, of clk "item_args aid ex date t"] by simp
  from Cons.IH [OF this, of "ids @ [i]"] show ?case using a by (simp add: batch_triples_def)
qed

lemma batch_applied_unique:
  assumes "triple_unique st"
  shows "triple_unique (snd (batch_applied clk x st))"
proof -
  let ?aid = "or_main (x_agentId x)" and ?date = "or_str (x_sourceDate x) (today clk)"
  let ?st1 = "batch_entities clk ?aid (x_entities x) st"
  have "triple_unique ?st1"
    using assms triple_unique_cong [OF triples_batch_entities] by simp
  from batch_triples_unique [OF this, of clk ?aid "x_sourceExchangeId x" ?date "x_triples x" "[]"]
  show ?thesis
    by (simp add: batch_applied_def Let_def split_beta
        triple_unique_cong [OF triples_batch_cooccurrences])
qed

lemma writeExchange_unique:
  assumes "triple_unique st"
  shows "triple_unique (snd (writeExchange clk faults x st))"
proof (cases "batch_ok faults x")
  case True
  then show ?thesis using batch_applied_unique [OF assms] by (simp add: writeExchange_ok)
next
  case False
  from writeExchange_fail [OF False, of clk st] show ?thesis using assms by auto
qed

text \<open>
  Claim C3. mergeEntities does not keep the invariant. The store holds bob\_m knows dan and
  bob\_martinez knows dan, one row each; merging bob\_m into bob\_martinez rewrites the first
  row onto the key of the second and leaves two rows for one key.
\<close>

theorem C3_merge_breaks_uniqueness:
  "triple_unique merge_store
   \<and> map triple_key (triples (snd (mergeEntities clk0 merge_store ''bob_martinez'' ''bob_m'' ''main'')))
       = [(''bob_martinez'', ''knows'', ''dan'', ''main''), (''bob_martinez'', ''knows'', ''dan'', ''main'')]
   \<and> \<not> triple_unique (snd (mergeEntities clk0 merge_store ''bob_martinez'' ''bob_m'' ''main''))"
  by code_simp

section \<open>Multi-hop traversal and cycles\<close>

text \<open>A literal occurrence of a text in the path is always found by the \<open>LIKE\<close> test.\<close>

lemma like_match_percent: "like_match ''%'' t"
  by (induction t) auto

lemma like_match_zero: "like_match ps t \<Longrightarrow> like_match (CHR ''%'' # ps) t"
  by simp

lemma like_match_skip: "like_match (CHR ''%'' # ps) t \<Longrightarrow> like_match (CHR ''%'' # ps) (c # t)"
  by simp

lemma like_match_literal: "like_match q t \<Longrightarrow> like_match (lit @ q) (lit @ t)"
proof (induction lit)
  case Nil
  then show ?case by simp
next
  case (Cons c cs)
  show ?case
  proof (cases "c = CHR ''%''")
    case True
    have "like_match (CHR ''%'' # (cs @ q)) (cs @ t)"
      using Cons by (intro like_match_zero) simp
    then have "like_match (CHR ''%'' # (cs @ q)) (CHR ''%'' # (cs @ t))"
      by (rule like_match_skip)
    then show ?thesis using True by simp
  next
    case False
    then show ?thesis using Cons by simp
  qed
qed

lemma like_match_prefix:
  "like_match (CHR ''%'' # ps) t \<Longrightarrow> like_match (CHR ''%'' # ps) (pre @ t)"
  by (induction pre) (auto intro: like_match_skip simp del: like_match.simps)

lemma like_match_infix: "like_match (''%'' @ lit @ ''%'') (pre @ lit @ post)"
proof -
  have "like_match (lit @ ''%'') (lit @ post)"
    by (rule like_match_literal) (rule like_match_percent)
  then have "like_match (CHR ''%'' # (lit @ ''%'')) (lit @ post)"
    by (rule like_match_zero)
  then have "like_match (CHR ''%'' # (lit @ ''%'')) (pre @ (lit @ post))"
    by (rule like_match_prefix)
  then show ?thesis by simp
qed

lemma on_path_like: "on_path e path \<Longrightarrow> like_match (''%/'' @ e @ ''/%'') path"
proof -
  assume "on_path e path"
  then obtain pre post where p: "path = pre @ ''/'' @ e @ ''/'' @ post"
    by (auto simp: on_path_def)
  have "like_match (''%'' @ (''/'' @ e @ ''/'') @ ''%'') (pre @ (''/'' @ e @ ''/'') @ post)"
    by (rule like_match_infix)
  then show ?thesis by (simp add: p)
qed

lemma on_path_append:
  assumes "on_path e path"
  shows "on_path e (path @ rest)"
proof -
  from assms obtain pre post where "path = pre @ ''/'' @ e @ ''/'' @ post"
    unfolding on_path_def by blast
  then have "path @ rest = pre @ ''/'' @ e @ ''/'' @ (post @ rest)" by simp
  then show ?thesis unfolding on_path_def by blast
qed

lemma on_path_end: "on_path e (pre @ ''/'' @ e @ ''/'')"
proof -
  have "pre @ ''/'' @ e @ ''/'' = pre @ ''/'' @ e @ ''/'' @ []" by simp
  then show ?thesis unfolding on_path_def by blast
qed

lemma on_path_start: "on_path e (''/'' @ e @ ''/'' @ post)"
proof -
  have "''/'' @ e @ ''/'' @ post = [] @ ''/'' @ e @ ''/'' @ post" by simp
  then show ?thesis unfolding on_path_def by blast
qed

lemma seed_path_ok:
  assumes "h \<in> set (seed_rows st seeds aid d minConf)"
  shows "path_ok st seeds aid h"
proof -
  from assms obtain t where t: "t \<in> set (triples st)" "agent_id t = aid"
      "subject t \<in> set seeds \<or> object t \<in> set seeds" and h: "h = seed_row seeds d t"
    by (auto simp: seed_rows_def)
  have s: "on_path (subject t) (h_path h)"
    unfolding h seed_row_def using on_path_start [of "subject t"] by simp
  have "on_path (object t) ((''/'' @ subject t @ ''/'' @ predicate t) @ ''/'' @ object t @ ''/'')"
    by (rule on_path_end)
  then have o: "on_path (object t) (h_path h)"
    unfolding h seed_row_def by simp
  show ?thesis
    unfolding path_ok_def using s o t by (auto simp: h seed_row_def)
qed

lemma step_path_ok:
  assumes ok: "path_ok st seeds aid h" and h': "h' \<in> set (expand st aid mh d minConf h)"
  shows "path_ok st seeds aid h'"
proof -
  from h' obtain t where h'eq: "h' = step_row d h t"
    and nl: "\<not> like_match (''%/'' @ next_entity h t @ ''/%'') (h_path h)"
    by (auto simp: expand_def)
  let ?n = "next_entity h t" and ?v = "h_visited h"
  have new: "?n \<notin> set ?v"
  proof
    assume "?n \<in> set ?v"
    with ok have "on_path ?n (h_path h)" by (simp add: path_ok_def)
    from on_path_like [OF this] nl show False by simp
  qed
  from ok have len: "length ?v = Suc (h_depth h)" "1 \<le> h_depth h" by (simp_all add: path_ok_def)
  then obtain a b rest where v: "?v = a # b # rest" by (cases ?v; cases "tl ?v") auto
  have vis: "h_visited h' = ?v @ [?n]" and path: "h_path h' = h_path h @ predicate t @ ''/'' @ ?n @ ''/''"
    and dep: "h_depth h' = Suc (h_depth h)"
    by (simp_all add: h'eq step_row_def)
  have onp: "\<forall>e \<in> set (h_visited h'). on_path e (h_path h')"
  proof
    fix e assume "e \<in> set (h_visited h')"
    then consider "e \<in> set ?v" | "e = ?n" by (auto simp: vis)
    then show "on_path e (h_path h')"
    proof cases
      case 1
      with ok have "on_path e (h_path h)" by (simp add: path_ok_def)
      then show ?thesis unfolding path by (rule on_path_append)
    next
      case 2
      have "on_path ?n ((h_path h @ predicate t) @ ''/'' @ ?n @ ''/'')" by (rule on_path_end)
      then show ?thesis by (simp add: 2 path)
    qed
  qed
  from ok have d: "distinct (b # rest)" and a: "a \<notin> set rest"
    and loop: "a = b \<longrightarrow> (\<exists>t \<in> set (triples st). subject t = object t \<and> subject t \<in> set seeds
              \<and> agent_id t = aid)"
    by (simp_all add: path_ok_def v)
  from new have n: "?n \<noteq> a" "?n \<noteq> b" "?n \<notin> set rest" by (simp_all add: v)
  show ?thesis
    unfolding path_ok_def using onp d a loop n len
    by (simp add: vis dep v)
qed

lemma hop_rows_path_ok:
  "(\<forall>h \<in> set frontier. path_ok st seeds aid h) \<Longrightarrow>
   \<forall>h \<in> set (hop_rows st aid mh d minConf k frontier). path_ok st seeds aid h"
proof (induction st aid mh d minConf k frontier rule: hop_rows.induct)
  case (1 st aid mh d minConf k frontier)
  show ?case
  proof (cases "k < mh \<and> frontier \<noteq> []")
    case True
    have "\<forall>h \<in> set (concat (map (expand st aid mh d minConf) frontier)). path_ok st seeds aid h"
      using "1.prems" step_path_ok by fastforce
    from "1.IH" [OF True this] "1.prems" True show ?thesis
      by (subst hop_rows.simps) auto
  next
    case False
    then show ?thesis using "1.prems" by (subst hop_rows.simps) auto
  qed
qed

text \<open>
  Claim C4, as amended. Every recursive step rejects a next entity that already occurs in
  the path. So in every row of the traversal the entities reached are pairwise distinct, and
  the start entity is none of the entities reached from the second hop on. The whole entity
  sequence is free of repetition whenever the seed triple joins two different entities; a
  path opens with the same entity twice only when its seed is a self-loop triple (subject
  equal to object) on a seed entity.
\<close>

theorem C4_paths_cycle_free:
  assumes "h \<in> set (hop_rows st aid mh d minConf 1 (seed_rows st seeds aid d minConf))"
  shows "length (h_visited h) = Suc (h_depth h) \<and> 1 \<le> h_depth h
     \<and> distinct (tl (h_visited h))
     \<and> h_visited h ! 0 \<notin> set (drop 2 (h_visited h))
     \<and> (h_visited h ! 0 \<noteq> h_visited h ! 1 \<longrightarrow> distinct (h_visited h))
     \<and> (h_visited h ! 0 = h_visited h ! 1 \<longrightarrow>
          (\<exists>t \<in> set (triples st). subject t = object t \<and> subject t \<in> set seeds
              \<and> agent_id t = aid))"
proof -
  have "\<forall>h \<in> set (seed_rows st seeds aid d minConf). path_ok st seeds aid h"
    using seed_path_ok by blast
  from hop_rows_path_ok [OF this] assms have ok: "path_ok st seeds aid h" by blast
  then have len: "length (h_visited h) = Suc (h_depth h)" "1 \<le> h_depth h"
    by (simp_all add: path_ok_def)
  then obtain a b rest where v: "h_visited h = a # b # rest"
    by (cases "h_visited h"; cases "tl (h_visited h)") auto
  show ?thesis using ok by (auto simp: path_ok_def v)
qed

text \<open>
  A self-loop seed: a knows a and a knows b, searched from a with two hops. The path that
  starts with the self-loop is extended to b and holds a twice.
\<close>

theorem C4_self_loop_revisits:
  "map h_visited loop_rows = [[''a'', ''a''], [''a'', ''b''], [''a'', ''a'', ''b'']]
   \<and> \<not> distinct (h_visited (loop_rows ! 2))"
  by code_simp

text \<open>
  The 4-cycle a, b, c, d with all confidences 1, searched from a with three hops: six
  paths, none of which repeats an entity.
\<close>

lemma cycle_rows_visited:
  "map h_visited cycle_rows =
     [[''a'', ''b''], [''a'', ''d''], [''a'', ''b'', ''c''], [''a'', ''d'', ''c''],
      [''a'', ''b'', ''c'', ''d''], [''a'', ''d'', ''c'', ''b'']]"
  by code_simp

theorem C4_paths_cycle_free_witness:
  "h_visited (cycle_rows ! 4) = [''a'', ''b'', ''c'', ''d'']
   \<and> distinct (h_visited (cycle_rows ! 4))
   \<and> map h_visited cycle_rows =
     [[''a'', ''b''], [''a'', ''d''], [''a'', ''b'', ''c''], [''a'', ''d'', ''c''],
      [''a'', ''b'', ''c'', ''d''], [''a'', ''d'', ''c'', ''b'']]"
proof -
  have len: "length cycle_rows = 6"
    using arg_cong [OF cycle_rows_visited, of length] by simp
  then have mem: "cycle_rows ! 4 \<in> set (hop_rows cycle_store ''main'' 3 0.7 0.6 1
                  (seed_rows cycle_store [''a''] ''main'' 0.7 0.6))"
    unfolding cycle_rows_def [symmetric] by (intro nth_mem) simp
  have v: "h_visited (cycle_rows ! 4) = [''a'', ''b'', ''c'', ''d'']"
    using arg_cong [OF cycle_rows_visited, of "\<lambda>l. l ! 4"] len by simp
  from C4_paths_cycle_free [OF mem] have "distinct (h_visited (cycle_rows ! 4))"
    by (simp add: v)
  then show ?thesis using v cycle_rows_visited by simp
qed

section \<open>The end-to-end scenario\<close>

text \<open>
  Three exchanges written for agent main: ex1 with chris created dashboard (0.9), ex2 with
  chris knows dan (0.9), ex3 with dan works\_on dashboard (0.8), each registering its two
  entities. The search is seeded with chris, with two hops, decay 0.7 and traversal
  threshold 0.6.

  Claim C1, as amended. The search returns the exchange ex3 of the dan works\_on dashboard
  triple, which touches no seed entity. It is reached at depth 2 by two paths, chris to dan
  to dashboard and chris to dashboard to dan; each carries the seed score 0.9 times 0.7
  decayed once more by 0.7, and the exchange's merged score is their sum, 0.882. The
  confidence 0.8 of the triple itself only has to pass the threshold.
\<close>

theorem C1_end_to_end:
  "map (\<lambda>t. (subject t, predicate t, object t, confidence t, source_exchange_id t, agent_id t))
       (triples e2e_store)
     = [(''chris'', ''created'', ''dashboard'', 0.9, Some ''ex1'', ''main''),
        (''chris'', ''knows'', ''dan'', 0.9, Some ''ex2'', ''main''),
        (''dan'', ''works_on'', ''dashboard'', 0.8, Some ''ex3'', ''main'')]
   \<and> map (\<lambda>e. (e_id e, e_agent_id e)) (entities e2e_store)
     = [(''chris'', ''main''), (''dashboard'', ''main''), (''dan'', ''main'')]
   \<and> hd e2e_hits = (''ex3'', 0.882)
   \<and> set e2e_hits = {(''ex3'', 0.882), (''ex1'', 0.63), (''ex2'', 0.63)}
   \<and> length e2e_hits = 3
   \<and> map (\<lambda>h. (h_visited h, h_depth h, h_score h))
       (filter (\<lambda>h. h_exchange h = Some ''ex3'') e2e_rows)
     = [([''chris'', ''dashboard'', ''dan''], 2, 0.9 * 0.7 * 0.7),
        ([''chris'', ''dan'', ''dashboard''], 2, 0.9 * 0.7 * 0.7)]
   \<and> (0.882 :: real) = 2 * (0.9 * 0.7 * 0.7)"
  by code_simp

text \<open>
  In this scenario chris and dashboard are joined by a single edge, chris created dashboard,
  by the very test pattern discovery uses for direct connection.
\<close>

theorem C1_direct_edge_exists:
  "direct_edge e2e_store ''chris'' ''dashboard'' ''main''"
  by code_simp

section \<open>Isolation between agents\<close>




















lemma wf_bumpCooccurrence: "wf_store st \<Longrightarrow> wf_store (bumpCooccurrence clk a b st)"
  by (simp add: wf_store_def bumpCooccurrence_def upsertCooccurrence_def Let_def)



















section \<open>The novelty gate of pattern discovery\<close>

lemma map_p_id_update:
  assumes "\<And>p. p_id (f p) = p_id p"
  shows "map p_id (map f ps) = map p_id ps"
  using assms by (induction ps) auto

lemma wf_patterns_map:
  assumes "wf_store st" and "\<And>p. p_id (f p) = p_id p"
  shows "wf_store (st\<lparr>meta_patterns := map f (meta_patterns st)\<rparr>)"
proof -
  have ids: "map p_id (map f (meta_patterns st)) = map p_id (meta_patterns st)"
    by (rule map_p_id_update) (rule assms(2))
  have "\<forall>p \<in> set (map f (meta_patterns st)). p_id p \<le> pattern_seq st"
    using assms by (auto simp: wf_store_def)
  then show ?thesis
    using assms(1) ids unfolding wf_store_def by (simp del: map_map set_map)
qed

lemma wf_upsertPattern: "wf_store st \<Longrightarrow> wf_store (snd (upsertPattern clk key ty w y ov aid st))"
  by (fastforce simp: wf_store_def upsertPattern_def Let_def)

lemma wf_savePattern: "wf_store st \<Longrightarrow> wf_store (snd (savePattern clk a preds w y ov st))"
  by (auto simp: savePattern_def Let_def wf_upsertPattern intro!: wf_patterns_map split: option.splits)

lemma wf_deactivatePattern: "wf_store st \<Longrightarrow> wf_store (deactivatePattern i st)"
  unfolding deactivatePattern_def by (rule wf_patterns_map) auto

lemma triples_savePattern [simp]: "triples (snd (savePattern clk a preds w y ov st)) = triples st"
  by (simp add: savePattern_def upsertPattern_def Let_def split: option.splits)

lemma triples_deactivatePattern [simp]: "triples (deactivatePattern i st) = triples st"
  by (simp add: deactivatePattern_def)

lemma same_id_same_row:
  assumes "wf_store st" "p \<in> set (meta_patterns st)" "q \<in> set (meta_patterns st)" "p_id p = p_id q"
  shows "p = q"
proof -
  from assms(1) have "distinct (map p_id (meta_patterns st))" by (simp add: wf_store_def)
  with assms(2-4) show ?thesis by (meson distinct_map inj_onD)
qed

lemma findPattern_Some:
  "findPattern st key aid = Some existing \<Longrightarrow>
   existing \<in> set (meta_patterns st) \<and> predicates existing = key \<and> p_agent_id existing = aid"
  by (auto simp: findPattern_def find_Some_iff)

text \<open>Saving one sequence leaves the rows of every other sequence as they are.\<close>

lemma savePattern_other:
  assumes wf: "wf_store st" and ne: "key \<noteq> preds"
  shows "pattern_rows (snd (savePattern clk a key w y ov st)) preds aid = pattern_rows st preds aid"
proof (cases "findPattern st key (or_main a)")
  case None
  then show ?thesis
    using ne by (simp add: savePattern_def upsertPattern_def Let_def pattern_rows_def)
next
  case (Some existing)
  note ex = findPattern_Some [OF Some]
  have keep: "filter (\<lambda>p. predicates p = preds \<and> p_agent_id p = aid)
          (map (\<lambda>p. if p_id p = p_id existing
                    then p\<lparr>weight := w, yield_score := y, overlap_ratio := ov,
                           last_validated := Some (now clk), active := True\<rparr>
                    else p) ps)
        = filter (\<lambda>p. predicates p = preds \<and> p_agent_id p = aid) ps"
    if "set ps \<subseteq> set (meta_patterns st)" for ps
    using that
  proof (induction ps)
    case Nil
    then show ?case by simp
  next
    case (Cons p ps)
    have "p_id p = p_id existing \<Longrightarrow> predicates p \<noteq> preds"
      using same_id_same_row [OF wf _ _, of p existing] Cons.prems ex ne by auto
    with Cons show ?case by auto
  qed
  show ?thesis
    using Some keep [of "meta_patterns st"]
    by (simp add: savePattern_def Let_def pattern_rows_def)
qed

lemma score_candidate_passes:
  assumes "c \<in> set (score_candidate pd clk st aid preds)"
  shows "sc_predicates c = preds \<and> \<not> retire pd (evaluatePattern pd clk st preds aid)"
proof (cases "evaluatePattern pd clk st preds aid")
  case None
  then show ?thesis using assms by (simp add: score_candidate_def)
next
  case (Some r)
  then show ?thesis
    using assms by (auto simp: score_candidate_def retire_def split: if_splits)
qed

lemma toSave_passes:
  assumes "c \<in> set (toSave pd clk st aid)"
  shows "\<not> retire pd (evaluatePattern pd clk st (sc_predicates c) aid)"
proof -
  from assms have "c \<in> set (concat (map (score_candidate pd clk st aid) (new_candidates pd st aid)))"
    by (auto simp: toSave_def Let_def dest!: in_set_takeD)
  then obtain preds where "c \<in> set (score_candidate pd clk st aid preds)" by auto
  from score_candidate_passes [OF this] show ?thesis by simp
qed

lemma save_all_other:
  assumes "\<forall>c \<in> set cs. sc_predicates c \<noteq> preds"
  shows "wf_store st \<Longrightarrow>
         pattern_rows (foldl (\<lambda>s p. snd (savePattern clk a (sc_predicates p) (min (sc_score p) 1)
                               (real (sc_yield p)) (sc_overlapRatio p) s)) st cs) preds aid
           = pattern_rows st preds aid"
  using assms
proof (induction cs arbitrary: st)
  case Nil
  then show ?case by simp
next
  case (Cons c cs)
  let ?s1 = "snd (savePattern clk a (sc_predicates c) (min (sc_score c) 1)
                    (real (sc_yield c)) (sc_overlapRatio c) st)"
  have "pattern_rows ?s1 preds aid = pattern_rows st preds aid"
    using Cons.prems by (intro savePattern_other) auto
  moreover have "wf_store ?s1" using Cons.prems(1) by (rule wf_savePattern)
  ultimately show ?case using Cons.IH [of ?s1] Cons.prems(2) by simp
qed

lemma discover_not_saved:
  assumes wf: "wf_store st"
    and bad: "retire pd (evaluatePattern pd clk st preds (or_main agentId))"
  shows "preds \<notin> set (map sc_predicates (toSave pd clk st (or_main agentId)))"
    and "pattern_rows (snd (discover pd clk agentId st)) preds (or_main agentId)
           = pattern_rows st preds (or_main agentId)"
proof -
  show n: "preds \<notin> set (map sc_predicates (toSave pd clk st (or_main agentId)))"
    using toSave_passes bad by fastforce
  then have "\<forall>c \<in> set (toSave pd clk st (or_main agentId)). sc_predicates c \<noteq> preds" by auto
  from save_all_other [OF this wf]
  show "pattern_rows (snd (discover pd clk agentId st)) preds (or_main agentId)
           = pattern_rows st preds (or_main agentId)"
    by (simp add: discover_def Let_def)
qed

lemma direct_edge_cong: "triples s = triples st \<Longrightarrow> direct_edge s = direct_edge st"
  by (intro ext) (simp only: direct_edge_def)

lemma measure_pairs_cong:
  assumes "triples s = triples st"
  shows "measure_pairs pd s = measure_pairs pd st"
  by (intro ext) (simp only: measure_pairs_def direct_edge_cong [OF assms])

lemma evaluatePattern_cong:
  assumes "triples s = triples st"
  shows "evaluatePattern pd clk s preds aid = evaluatePattern pd clk st preds aid"
proof -
  have "evaluate2Step pd clk s = evaluate2Step pd clk st"
    by (intro ext) (simp only: evaluate2Step_def measure_pairs_cong [OF assms] assms)
  moreover have "evaluate3Step pd clk s = evaluate3Step pd clk st"
    by (intro ext) (simp only: evaluate3Step_def measure_pairs_cong [OF assms] assms)
  ultimately show ?thesis by (simp only: evaluatePattern_def)
qed

lemma validate_step_store:
  "snd (validate_step pd clk aid (ctr, s) q) =
     (if p_type q = Static then s
      else if retire pd (evaluatePattern pd clk s (predicates q) aid)
      then deactivatePattern (p_id q) s
      else snd (savePattern clk (Some aid) (predicates q)
                 (min (real (ev_yield (the (evaluatePattern pd clk s (predicates q) aid)))
                        * (1 - ev_overlapRatio (the (evaluatePattern pd clk s (predicates q) aid)))
                        * ev_avgConfidence (the (evaluatePattern pd clk s (predicates q) aid))) 1)
                 (real (ev_yield (the (evaluatePattern pd clk s (predicates q) aid))))
                 (ev_overlapRatio (the (evaluatePattern pd clk s (predicates q) aid))) s))"
  by (cases ctr) (simp add: validate_step_def Let_def)

lemma row_kept_map:
  assumes "row \<in> set (meta_patterns s)"
  shows "f row \<in> set (meta_patterns (s\<lparr>meta_patterns := map f (meta_patterns s)\<rparr>))"
  using assms by simp

lemma val_inv_deactivate: "val_inv st p s \<Longrightarrow> val_inv st p (deactivatePattern i s)"
proof -
  assume v: "val_inv st p s"
  then obtain row where r: "row \<in> set (meta_patterns s)" "p_id row = p_id p"
      "predicates row = predicates p" by (auto simp: val_inv_def)
  let ?f = "\<lambda>p. if p_id p = i then p\<lparr>active := False\<rparr> else p"
  have "?f row \<in> set (meta_patterns (deactivatePattern i s))"
    unfolding deactivatePattern_def using r(1) by (rule row_kept_map)
  moreover have "p_id (?f row) = p_id p" "predicates (?f row) = predicates p" using r by auto
  ultimately show ?thesis
    using v wf_deactivatePattern [of s i] unfolding val_inv_def by (auto simp del: set_map)
qed

lemma val_inv_save: "val_inv st p s \<Longrightarrow> val_inv st p (snd (savePattern clk a key w y ov s))"
proof -
  assume v: "val_inv st p s"
  then obtain row where r: "row \<in> set (meta_patterns s)" "p_id row = p_id p"
      "predicates row = predicates p" by (auto simp: val_inv_def)
  have "\<exists>row' \<in> set (meta_patterns (snd (savePattern clk a key w y ov s))).
          p_id row' = p_id p \<and> predicates row' = predicates p"
  proof (cases "findPattern s key (or_main a)")
    case None
    then show ?thesis using r by (auto simp: savePattern_def upsertPattern_def Let_def)
  next
    case (Some existing)
    let ?f = "\<lambda>p. if p_id p = p_id existing
                    then p\<lparr>weight := w, yield_score := y, overlap_ratio := ov,
                           last_validated := Some (now clk), active := True\<rparr>
                    else p"
    have "?f row \<in> set (map ?f (meta_patterns s))" using r(1) by simp
    moreover have "p_id (?f row) = p_id p" "predicates (?f row) = predicates p" using r by auto
    ultimately show ?thesis
      using Some by (auto simp: savePattern_def Let_def simp del: set_map)
  qed
  then show ?thesis using v wf_savePattern [of s clk a key w y ov] by (simp add: val_inv_def)
qed

lemma val_inv_step: "val_inv st p s \<Longrightarrow> val_inv st p (snd (validate_step pd clk aid (ctr, s) q))"
  by (simp add: validate_step_store val_inv_deactivate val_inv_save)

lemma inactive_deactivate:
  assumes "inactive s i"
  shows "inactive (deactivatePattern j s) i"
proof -
  from assms obtain row where r: "row \<in> set (meta_patterns s)" "p_id row = i" "\<not> active row"
    by (auto simp: inactive_def)
  let ?f = "\<lambda>p. if p_id p = j then p\<lparr>active := False\<rparr> else p"
  have "?f row \<in> set (map ?f (meta_patterns s))" using r(1) by simp
  moreover have "p_id (?f row) = i" "\<not> active (?f row)" using r by auto
  ultimately show ?thesis unfolding inactive_def deactivatePattern_def by (auto simp del: set_map)
qed

lemma deactivate_makes_inactive:
  assumes "row \<in> set (meta_patterns s)" "p_id row = i"
  shows "inactive (deactivatePattern i s) i"
proof -
  let ?f = "\<lambda>p. if p_id p = i then p\<lparr>active := False\<rparr> else p"
  have "?f row \<in> set (map ?f (meta_patterns s))" using assms(1) by simp
  moreover have "p_id (?f row) = i" "\<not> active (?f row)" using assms(2) by auto
  ultimately show ?thesis unfolding inactive_def deactivatePattern_def by (auto simp del: set_map)
qed

lemma inactive_save:
  assumes v: "val_inv st p s" and i: "inactive s (p_id p)" and ne: "key \<noteq> predicates p"
  shows "inactive (snd (savePattern clk a key w y ov s)) (p_id p)"
proof -
  from i obtain row where r: "row \<in> set (meta_patterns s)" "p_id row = p_id p" "\<not> active row"
    by (auto simp: inactive_def)
  from v obtain row' where r': "row' \<in> set (meta_patterns s)" "p_id row' = p_id p"
      "predicates row' = predicates p" and wf: "wf_store s"
    by (auto simp: val_inv_def)
  have "row = row'" using same_id_same_row [OF wf r(1) r'(1)] r(2) r'(2) by simp
  then have pr: "predicates row = predicates p" using r'(3) by simp
  show ?thesis
  proof (cases "findPattern s key (or_main a)")
    case None
    then show ?thesis using r by (auto simp: savePattern_def upsertPattern_def Let_def inactive_def)
  next
    case (Some existing)
    note ex = findPattern_Some [OF Some]
    have "p_id row \<noteq> p_id existing"
    proof
      assume "p_id row = p_id existing"
      from same_id_same_row [OF wf r(1) _ this] ex have "row = existing" by simp
      with ex pr ne show False by simp
    qed
    let ?f = "\<lambda>p. if p_id p = p_id existing
                    then p\<lparr>weight := w, yield_score := y, overlap_ratio := ov,
                           last_validated := Some (now clk), active := True\<rparr>
                    else p"
    have "?f row \<in> set (map ?f (meta_patterns s))" using r(1) by simp
    moreover have "?f row = row" using \<open>p_id row \<noteq> p_id existing\<close> by simp
    ultimately have "row \<in> set (map ?f (meta_patterns s))" by simp
    then show ?thesis
      using Some r(2,3) unfolding inactive_def savePattern_def Let_def
      by (auto simp del: set_map)
  qed
qed

lemma inactive_step:
  assumes v: "val_inv st p s" and i: "inactive s (p_id p)"
    and bad: "retire pd (evaluatePattern pd clk st (predicates p) aid)"
  shows "inactive (snd (validate_step pd clk aid (ctr, s) q)) (p_id p)"
proof -
  from v have t: "triples s = triples st" by (simp add: val_inv_def)
  have ev: "evaluatePattern pd clk s preds aid = evaluatePattern pd clk st preds aid" for preds
    by (rule evaluatePattern_cong [OF t])
  consider "p_type q = Static"
    | "p_type q \<noteq> Static" "retire pd (evaluatePattern pd clk s (predicates q) aid)"
    | "p_type q \<noteq> Static" "\<not> retire pd (evaluatePattern pd clk s (predicates q) aid)"
    by blast
  then show ?thesis
  proof cases
    case 1
    then show ?thesis using i by (simp add: validate_step_store)
  next
    case 2
    then show ?thesis using inactive_deactivate [OF i] by (simp add: validate_step_store)
  next
    case 3
    then have "predicates q \<noteq> predicates p" using bad ev by auto
    from inactive_save [OF v i this] 3 show ?thesis by (simp add: validate_step_store)
  qed
qed

lemma retire_step:
  assumes v: "val_inv st p s" and d: "p_type p \<noteq> Static"
    and bad: "retire pd (evaluatePattern pd clk st (predicates p) aid)"
  shows "inactive (snd (validate_step pd clk aid (ctr, s) p)) (p_id p)"
proof -
  from v have t: "triples s = triples st" by (simp add: val_inv_def)
  from v obtain row where r: "row \<in> set (meta_patterns s)" "p_id row = p_id p"
    by (auto simp: val_inv_def)
  have "retire pd (evaluatePattern pd clk s (predicates p) aid)"
    using bad evaluatePattern_cong [OF t] by simp
  then show ?thesis
    using d deactivate_makes_inactive [OF r] by (simp add: validate_step_store)
qed

lemma validate_loop:
  assumes bad: "retire pd (evaluatePattern pd clk st (predicates p) aid)" and d: "p_type p \<noteq> Static"
  shows "val_inv st p s \<Longrightarrow> inactive s (p_id p) \<or> p \<in> set qs \<Longrightarrow>
         inactive (snd (foldl (validate_step pd clk aid) (ctr, s) qs)) (p_id p)"
proof (induction qs arbitrary: ctr s)
  case Nil
  then show ?case by simp
next
  case (Cons q qs)
  obtain ctr' s' where step: "validate_step pd clk aid (ctr, s) q = (ctr', s')" by fastforce
  then have s': "s' = snd (validate_step pd clk aid (ctr, s) q)" by simp
  have v': "val_inv st p s'" unfolding s' by (rule val_inv_step [OF Cons.prems(1)])
  have "inactive s' (p_id p) \<or> p \<in> set qs"
  proof (cases "inactive s (p_id p)")
    case True
    then show ?thesis unfolding s' using inactive_step [OF Cons.prems(1) _ bad] by blast
  next
    case False
    with Cons.prems(2) consider "p = q" | "p \<in> set qs" by auto
    then show ?thesis
    proof cases
      case 1
      then show ?thesis unfolding s' using retire_step [OF Cons.prems(1) d bad] by blast
    next
      case 2
      then show ?thesis by blast
    qed
  qed
  from Cons.IH [OF v' this, of ctr'] show ?case by (simp add: step)
qed

lemma validate_retires:
  assumes wf: "wf_store st"
    and p: "p \<in> set (getActivePatterns st agentId)" and d: "p_type p \<noteq> Static"
    and bad: "retire pd (evaluatePattern pd clk st (predicates p) (or_main agentId))"
  shows "inactive (snd (validatePatterns pd clk agentId st)) (p_id p)"
proof -
  have ga: "getActivePatterns st (Some (or_main agentId)) = getActivePatterns st agentId"
    by (simp add: getActivePatterns_def or_main_idem)
  from p have "p \<in> set (meta_patterns st)" by (auto simp: getActivePatterns_def)
  then have v: "val_inv st p st" using wf by (auto simp: val_inv_def)
  from validate_loop [OF bad d v, of "getActivePatterns st agentId" "(0, 0)"] p
  show ?thesis by (simp add: validatePatterns_def Let_def ga)
qed

text \<open>
  Claim C8. Let a predicate sequence be measured against the store: the evaluation either
  finds fewer reachable pairs than minYield (and returns nothing), or yields an overlap ratio
  above maxOverlapRatio. Then discover does not select it for saving and leaves the pattern
  rows of that sequence exactly as they were, and validatePatterns switches off every active
  discovered pattern with that sequence.
\<close>

theorem C8_novelty_gate:
  assumes wf: "wf_store st"
    and bad: "case evaluatePattern pd clk st preds (or_main agentId) of
                None \<Rightarrow> True
              | Some r \<Rightarrow> real (ev_yield r) < minYield pd \<or> ev_overlapRatio r > maxOverlapRatio pd"
  shows "preds \<notin> set (map sc_predicates (toSave pd clk st (or_main agentId)))
     \<and> pattern_rows (snd (discover pd clk agentId st)) preds (or_main agentId)
         = pattern_rows st preds (or_main agentId)
     \<and> (\<forall>p \<in> set (getActivePatterns st agentId).
           predicates p = preds \<and> p_type p = Discovered \<longrightarrow>
           inactive (snd (validatePatterns pd clk agentId st)) (p_id p))"
proof -
  from bad have r: "retire pd (evaluatePattern pd clk st preds (or_main agentId))"
    by (simp add: retire_def)
  have "inactive (snd (validatePatterns pd clk agentId st)) (p_id p)"
    if "p \<in> set (getActivePatterns st agentId)" "predicates p = preds" "p_type p = Discovered" for p
    using validate_retires [OF wf that(1), of pd clk] that(2,3) r by simp
  then show ?thesis using discover_not_saved [OF wf r] by blast
qed

text \<open>
  Three chains a knows b, b works\_on c whose ends are all joined by a direct edge a created c:
  the sequence knows, works\_on yields 3 pairs with overlap 1, above the default 0.9. The
  discovered pattern saved for it earlier is switched off by validatePatterns and not saved
  again by discover.
\<close>

lemma wf_overlap_store: "wf_store overlap_store"
  by code_simp

lemma overlap_measured:
  "map_option (\<lambda>r. (ev_yield r, ev_overlapRatio r))
     (evaluatePattern default_discovery clk0 overlap_store [''knows'', ''works_on''] ''main'')
   = Some (3, 1)"
  by code_simp

lemma overlap_active:
  "map (\<lambda>p. (p_id p, predicates p, p_type p)) (getActivePatterns overlap_store None)
     = [(1, [''knows'', ''works_on''], Discovered)]"
  by code_simp

theorem C8_novelty_gate_witness:
  "wf_store overlap_store
   \<and> map_option (\<lambda>r. (ev_yield r, ev_overlapRatio r))
       (evaluatePattern default_discovery clk0 overlap_store [''knows'', ''works_on''] ''main'')
     = Some (3, 1)
   \<and> maxOverlapRatio default_discovery = 0.9
   \<and> map (\<lambda>p. (p_id p, predicates p, p_type p)) (getActivePatterns overlap_store None)
     = [(1, [''knows'', ''works_on''], Discovered)]
   \<and> inactive (snd (validatePatterns default_discovery clk0 None overlap_store)) 1
   \<and> pattern_rows (snd (discover default_discovery clk0 None overlap_store))
        [''knows'', ''works_on''] ''main''
      = pattern_rows overlap_store [''knows'', ''works_on''] ''main''"
proof -
  obtain r where ev: "evaluatePattern default_discovery clk0 overlap_store [''knows'', ''works_on'']
                        ''main'' = Some r" and ov: "ev_overlapRatio r = 1"
    using overlap_measured by (cases "evaluatePattern default_discovery clk0 overlap_store
                        [''knows'', ''works_on''] ''main''") auto
  have mx: "maxOverlapRatio default_discovery = 0.9"
    by (simp add: default_discovery_def new_discovery_def or_real_def)
  have main: "or_main None = ''main''" by (simp add: or_main_def)
  have bad: "case evaluatePattern default_discovery clk0 overlap_store [''knows'', ''works_on'']
                    (or_main None) of
                None \<Rightarrow> True
              | Some r \<Rightarrow> real (ev_yield r) < minYield default_discovery
                          \<or> ev_overlapRatio r > maxOverlapRatio default_discovery"
    by (simp add: main ev ov mx)
  obtain p where p: "getActivePatterns overlap_store None = [p]" "p_id p = 1"
      "predicates p = [''knows'', ''works_on'']" "p_type p = Discovered"
    using overlap_active by (cases "getActivePatterns overlap_store None") auto
  from C8_novelty_gate [OF wf_overlap_store bad] p
  have "inactive (snd (validatePatterns default_discovery clk0 None overlap_store)) 1"
    and "pattern_rows (snd (discover default_discovery clk0 None overlap_store))
           [''knows'', ''works_on''] ''main''
         = pattern_rows overlap_store [''knows'', ''works_on''] ''main''"
    by (auto simp: main)
  then show ?thesis using wf_overlap_store overlap_measured mx overlap_active by simp
qed

end
